theory Spec2Isabelle
  imports Main "HOL-Library.Word" "HOL-Library.Char_ord" "HOL-Library.List_Lexorder"
begin

unbundle bit_operations_syntax

chapter \<open>The hierarchical bloom-filter index over a column-family LSM store\<close>

text \<open>
  A shallow embedding of the index core: the bloom filter (\<^verbatim>\<open>bloom/bloom_value.cpp\<close>),
  the index node and tree (\<^verbatim>\<open>bloom/node.hpp\<close>, \<^verbatim>\<open>bloom/bloomTree.cpp\<close>), the per-file
  partitioner (\<^verbatim>\<open>src/bloom_manager.cpp\<close>), the file scan of the storage adapter
  (\<^verbatim>\<open>src/db_manager.cpp\<close>) and the multi-column query (\<^verbatim>\<open>include/algorithm.hpp\<close>).

  Keys and values are \<^verbatim>\<open>std::string\<close>; they are compared bytewise and lexicographically,
  which is the order of \<^typ>\<open>string\<close> given by the imported orders on characters and lists.
  Exceptions are values of the type \<open>error\<close>. The process-global counters and the global
  result vector are fields of an explicit state record that every traversal takes and returns.
\<close>

section \<open>Definitions\<close>

subsection \<open>Errors\<close>

text \<open>
  \<open>SizeMismatch\<close> is the \<^verbatim>\<open>std::runtime_error\<close> thrown by \<^verbatim>\<open>BloomFilter::merge\<close>,
  \<open>IoFailure\<close> the one thrown when a stream cannot be opened, \<open>LengthError\<close> the
  \<^verbatim>\<open>std::length_error\<close> of a vector asked for more elements than it can hold.
  \<open>UndefinedBehaviour\<close> marks the places where the source reads out of range, reads an
  uninitialised variable or dereferences a pointer that is null or was never set.
\<close>

datatype error = SizeMismatch | IoFailure | LengthError | UndefinedBehaviour

subsection \<open>The 32-bit Murmur3 hash\<close>

text \<open>
  \<^verbatim>\<open>BloomFilter::hash\<close> calls \<^verbatim>\<open>MurmurHash3_x86_32\<close> from the external header
  \<^verbatim>\<open>MurmurHash3.h\<close>. The header is a third-party file and not part of the sources;
  the function is written here after the reference algorithm the specification names
  (blocks of four bytes read little-endian, a tail of up to three bytes, the length mixed in,
  and the final avalanche). No general theorem below depends on how it computes.
\<close>

definition ROTL32 :: "32 word \<Rightarrow> nat \<Rightarrow> 32 word" where
  "ROTL32 x r = push_bit r x OR drop_bit (32 - r) x"

definition fmix32 :: "32 word \<Rightarrow> 32 word" where
  "fmix32 h0 =
     (let h1 = h0 XOR drop_bit 16 h0;
          h2 = h1 * 0x85ebca6b;
          h3 = h2 XOR drop_bit 13 h2;
          h4 = h3 * 0xc2b2ae35
      in h4 XOR drop_bit 16 h4)"

definition mix_k1 :: "32 word \<Rightarrow> 32 word" where
  "mix_k1 k1 = ROTL32 (k1 * 0xcc9e2d51) 15 * 0x1b873593"

fun murmur_blocks :: "char list \<Rightarrow> 32 word \<Rightarrow> 32 word" where
  "murmur_blocks (b0 # b1 # b2 # b3 # rest) h1 =
     (let k1 = of_char b0 OR push_bit 8 (of_char b1) OR push_bit 16 (of_char b2)
                 OR push_bit 24 (of_char b3);
          h = ROTL32 (h1 XOR mix_k1 k1) 13
      in murmur_blocks rest (h * 5 + 0xe6546b64))"
| "murmur_blocks [b0, b1, b2] h1 =
     h1 XOR mix_k1 (push_bit 16 (of_char b2) XOR push_bit 8 (of_char b1) XOR of_char b0)"
| "murmur_blocks [b0, b1] h1 = h1 XOR mix_k1 (push_bit 8 (of_char b1) XOR of_char b0)"
| "murmur_blocks [b0] h1 = h1 XOR mix_k1 (of_char b0)"
| "murmur_blocks [] h1 = h1"

definition MurmurHash3_x86_32 :: "string \<Rightarrow> 32 word \<Rightarrow> 32 word" where
  "MurmurHash3_x86_32 key seed = fmix32 (murmur_blocks key seed XOR of_nat (length key))"

subsection \<open>Bloom filter\<close>

text \<open>
  The class has three public fields. \<^verbatim>\<open>size_t\<close> is a natural number and \<^verbatim>\<open>int\<close> an
  integer here; the serialisation below writes out their widths.
\<close>

record BloomFilter =
  bitArray :: "bool list"
  numHashFunctions :: int
  bitArraySize :: nat

text \<open>The constructor: \<^verbatim>\<open>bitArray.resize(bitArraySize, false)\<close>.\<close>

definition new_BloomFilter :: "nat \<Rightarrow> int \<Rightarrow> BloomFilter" where
  "new_BloomFilter sz k =
     \<lparr>bitArray = replicate sz False, numHashFunctions = k, bitArraySize = sz\<rparr>"

text \<open>
  \<^verbatim>\<open>static_cast<size_t>(hashOutput) % bitArraySize\<close>. With \<^verbatim>\<open>bitArraySize = 0\<close> the source
  divides by zero, and with a bit array shorter than \<^verbatim>\<open>bitArraySize\<close> the accesses below
  leave the vector: both are undefined in the source, so the theorems about \<open>insert\<close> and
  \<open>exists\<close> are stated for filters with \<open>0 < bitArraySize\<close> and
  \<open>length bitArray = bitArraySize\<close> (predicate \<open>wf_filter\<close>), which is what the constructor
  gives for a positive size.
\<close>

definition hash :: "BloomFilter \<Rightarrow> string \<Rightarrow> int \<Rightarrow> nat" where
  "hash bf key seed = unat (MurmurHash3_x86_32 key (word_of_int seed)) mod bitArraySize bf"

definition BloomFilter_insert :: "BloomFilter \<Rightarrow> string \<Rightarrow> BloomFilter" where
  "BloomFilter_insert bf key =
     fold (\<lambda>i b. b\<lparr>bitArray := (bitArray b)[hash b key (int i) := True]\<rparr>)
          [0..<nat (numHashFunctions bf)] bf"

definition BloomFilter_exists :: "BloomFilter \<Rightarrow> string \<Rightarrow> bool" where
  "BloomFilter_exists bf key =
     list_all (\<lambda>i. bitArray bf ! hash bf key (int i)) [0..<nat (numHashFunctions bf)]"

text \<open>
  \<^verbatim>\<open>merge\<close> mutates the receiver or throws. The model returns the exception, if any,
  together with the receiver as it is when the call ends.
\<close>

definition BloomFilter_merge :: "BloomFilter \<Rightarrow> BloomFilter \<Rightarrow> error option \<times> BloomFilter" where
  "BloomFilter_merge this other =
     (if length (bitArray this) \<noteq> length (bitArray other) then (Some SizeMismatch, this)
      else (None, this\<lparr>bitArray := map2 (\<or>) (bitArray this) (bitArray other)\<rparr>))"

definition wf_filter :: "BloomFilter \<Rightarrow> bool" where
  "wf_filter bf \<longleftrightarrow> 0 < bitArraySize bf \<and> length (bitArray bf) = bitArraySize bf"

subsection \<open>Sidecar files\<close>

text \<open>
  A file is a list of bytes. \<^verbatim>\<open>file.write(reinterpret_cast<const char*>(&x), sizeof(x))\<close>
  writes the object representation of \<open>x\<close>: little-endian, 8 bytes for \<^verbatim>\<open>size_t\<close> and
  4 bytes (two's complement) for \<^verbatim>\<open>int\<close>.
\<close>

type_synonym byte = "8 word"

definition le_bytes :: "nat \<Rightarrow> nat \<Rightarrow> byte list" where
  "le_bytes n x = map (\<lambda>i. of_nat (x div 256 ^ i)) [0..<n]"

fun le_value :: "byte list \<Rightarrow> nat" where
  "le_value [] = 0"
| "le_value (b # bs) = unat b + 256 * le_value bs"

definition int32_of :: "nat \<Rightarrow> int" where
  "int32_of u = (if u < 2 ^ 31 then int u else int u - 2 ^ 32)"

text \<open>The loop \<^verbatim>\<open>if (bitArray[i]) buffer[i / 8] |= (1 << (i % 8))\<close> over \<open>i < bitArraySize\<close>.\<close>

definition fill_buffer :: "bool list \<Rightarrow> nat \<Rightarrow> byte list \<Rightarrow> byte list" where
  "fill_buffer bits m buffer =
     fold (\<lambda>i buf. if bits ! i then buf[i div 8 := buf ! (i div 8) OR push_bit (i mod 8) 1]
                   else buf)
          [0..<m] buffer"

definition byteSize_of :: "nat \<Rightarrow> nat" where
  "byteSize_of m = ((m + 7) mod 2 ^ 64) div 8"

definition serialize :: "BloomFilter \<Rightarrow> byte list" where
  "serialize bf =
     le_bytes 8 (bitArraySize bf) @ le_bytes 4 (nat (numHashFunctions bf mod 2 ^ 32)) @
     fill_buffer (bitArray bf) (bitArraySize bf) (replicate (byteSize_of (bitArraySize bf)) 0)"

text \<open>
  A path names no file, a file that cannot be opened, or a file with contents.
  \<^verbatim>\<open>std::ofstream\<close> creates a missing file; \<^verbatim>\<open>std::ifstream\<close> fails on it.
\<close>

datatype file_entry = Absent | Unopenable | Contents "byte list"

type_synonym filesystem = "string \<Rightarrow> file_entry"

definition BloomFilter_saveToFile :: "BloomFilter \<Rightarrow> string \<Rightarrow> filesystem \<Rightarrow> error + filesystem" where
  "BloomFilter_saveToFile bf filename fs =
     (if fs filename = Unopenable then Inl IoFailure
      else Inr (fs(filename := Contents (serialize bf))))"

text \<open>
  \<^verbatim>\<open>file.read(buffer.data(), buffer.size())\<close>: the bytes the stream still has overwrite the
  front of the buffer; the rest of the buffer keeps its contents. The source tests no
  stream state after a read.
\<close>

definition stream_read :: "byte list \<Rightarrow> byte list \<Rightarrow> byte list" where
  "stream_read buffer input = take (length buffer) input @ drop (length input) buffer"

text \<open>
  The two header variables are uninitialised locals: with fewer than 12 bytes in the file
  the source goes on with an indeterminate value.

  \<^verbatim>\<open>filter.bitArray.resize(bitArraySize)\<close> comes before the buffer is made and throws
  \<^verbatim>\<open>std::length_error\<close> for a size above \<^verbatim>\<open>max_size()\<close>. The bound is the implementation's;
  the sizes for which \<open>bitArraySize + 7\<close> leaves \<^verbatim>\<open>size_t\<close> are above it on every
  implementation, and the model throws for them. For a smaller size the model takes both
  allocations to be granted: how much memory the machine grants is not part of the model,
  so the theorems about loading speak of headers that carry the size of a filter that
  exists (predicate \<open>representable\<close> below).
\<close>

definition BloomFilter_loadFromFile :: "string \<Rightarrow> filesystem \<Rightarrow> error + BloomFilter" where
  "BloomFilter_loadFromFile filename fs =
     (case fs filename of
        Contents bytes \<Rightarrow>
          if length bytes < 12 then Inl UndefinedBehaviour
          else
            (let m = le_value (take 8 bytes);
                 k = int32_of (le_value (take 4 (drop 8 bytes)))
             in if 2 ^ 64 \<le> m + 7 then Inl LengthError
                else
                  (let buffer = stream_read (replicate (byteSize_of m) 0) (drop 12 bytes)
                   in Inr \<lparr>bitArray = map (\<lambda>i. buffer ! (i div 8) AND push_bit (i mod 8) 1 \<noteq> 0)
                                             [0..<m],
                           numHashFunctions = k, bitArraySize = m\<rparr>))
      | _ \<Rightarrow> Inl IoFailure)"

subsection \<open>Index node\<close>

text \<open>
  A node owns its children (the tree has exclusive ownership of its node graph), so the
  pointer structure is a tree and \<^verbatim>\<open>Node*\<close> is the node itself. The source tag of an
  interior node is the file name \<^verbatim>\<open>"Memory"\<close>.
\<close>

datatype Node =
  Node (children: "Node list") (bloom: BloomFilter) (filename: string)
       (startKey: string) (endKey: string)

subsection \<open>The storage adapter: sorted files\<close>

text \<open>
  An SST file, as its iterator shows it: the key/value pairs in key order. A path that
  \<^verbatim>\<open>SstFileReader::Open\<close> rejects has no file.
\<close>

type_synonym sst_store = "string \<Rightarrow> (string \<times> string) list option"

text \<open>
  \<^verbatim>\<open>DBManager::scanFileForKeysWithValue\<close>: \<^verbatim>\<open>Seek(rangeStart)\<close> moves to the first key
  that is not below \<open>rangeStart\<close>; the loop leaves at the first key above a non-empty
  \<open>rangeEnd\<close>.
\<close>

definition scanFileForKeysWithValue ::
  "sst_store \<Rightarrow> string \<Rightarrow> string \<Rightarrow> string \<Rightarrow> string \<Rightarrow> string list" where
  "scanFileForKeysWithValue db fname v rangeStart rangeEnd =
     (case db fname of
        None \<Rightarrow> []
      | Some records \<Rightarrow>
          (let iter = (if rangeStart \<noteq> [] then dropWhile (\<lambda>(key, val). key < rangeStart) records
                       else records)
           in map fst (filter (\<lambda>(key, val). val = v)
                (takeWhile (\<lambda>(key, val). \<not> (rangeEnd \<noteq> [] \<and> key > rangeEnd)) iter))))"

subsection \<open>Per-file partitioner\<close>

text \<open>
  The local variables of \<^verbatim>\<open>BloomManager::processSSTFile\<close>. Every record is inserted into
  the filter of the open partition: with a filter size of zero and a positive hash count
  the first insertion divides by zero in \<^verbatim>\<open>hash\<close>, so the theorems about the partitioner
  assume a positive filter size or a hash count of at most zero.
\<close>

record partition_state =
  partitions :: "Node list"
  currentCount :: nat
  partitionBloom :: BloomFilter
  partitionStartKey :: string
  firstEntry :: bool
  lastKey :: string

text \<open>One pass of the loop body, for the record the iterator stands on.\<close>

definition partition_step ::
  "string \<Rightarrow> nat \<Rightarrow> nat \<Rightarrow> int \<Rightarrow> partition_state \<Rightarrow> string \<times> string \<Rightarrow> partition_state" where
  "partition_step sstFile partitionSize bloomSize k st kv =
     (let key = fst kv; val = snd kv;
          st1 = (if firstEntry st then st\<lparr>partitionStartKey := key, firstEntry := False\<rparr> else st);
          st2 = st1\<lparr>partitionBloom := BloomFilter_insert (partitionBloom st1) val,
                    lastKey := key, currentCount := currentCount st1 + 1\<rparr>
      in if currentCount st2 \<ge> partitionSize
         then st2\<lparr>partitions := partitions st2 @
                       [Node [] (partitionBloom st2) sstFile (partitionStartKey st2) (lastKey st2)],
                   partitionBloom := new_BloomFilter bloomSize k,
                   currentCount := 0, firstEntry := True\<rparr>
         else st2)"

definition processSSTFile :: "sst_store \<Rightarrow> string \<Rightarrow> nat \<Rightarrow> nat \<Rightarrow> int \<Rightarrow> Node list" where
  "processSSTFile db sstFile partitionSize bloomSize k =
     (case db sstFile of
        None \<Rightarrow> []
      | Some records \<Rightarrow>
          (let st = foldl (partition_step sstFile partitionSize bloomSize k)
                      \<lparr>partitions = [], currentCount = 0,
                       partitionBloom = new_BloomFilter bloomSize k,
                       partitionStartKey = [], firstEntry = True, lastKey = []\<rparr> records
           in if currentCount st > 0
              then partitions st @
                     [Node [] (partitionBloom st) sstFile (partitionStartKey st) (lastKey st)]
              else partitions st))"

subsection \<open>Level-by-level composition\<close>

text \<open>
  The body of the inner loop of \<^verbatim>\<open>BloomTree::buildLevel\<close>: the parent widens its range,
  merges the child's filter (which may throw) and takes the child.
\<close>

fun adopt :: "Node \<Rightarrow> Node \<Rightarrow> error + Node" where
  "adopt (Node ch bl fn sk ek) c =
     (let sk' = (if sk > startKey c then startKey c else sk);
          ek' = (if ek < endKey c then endKey c else ek)
      in case BloomFilter_merge bl (bloom c) of
           (Some e, _) \<Rightarrow> Inl e
         | (None, bl') \<Rightarrow> Inr (Node (ch @ [c]) bl' fn sk' ek'))"

fun adopt_all :: "Node \<Rightarrow> Node list \<Rightarrow> error + Node" where
  "adopt_all parent [] = Inr parent"
| "adopt_all parent (c # cs) =
     (case adopt parent c of Inl e \<Rightarrow> Inl e | Inr parent' \<Rightarrow> adopt_all parent' cs)"

text \<open>
  One pass of the outer loop: the parent of \<open>nodes[i .. end)\<close>. The source reads
  \<open>nodes[end - 1]\<close>; with \<open>end = 0\<close> the index wraps around and leaves the vector.
\<close>

definition make_parent :: "nat \<Rightarrow> int \<Rightarrow> Node list \<Rightarrow> nat \<Rightarrow> nat \<Rightarrow> error + Node" where
  "make_parent bloomSize k nodes i endIdx =
     (if endIdx = 0 \<or> length nodes < endIdx then Inl UndefinedBehaviour
      else adopt_all (Node [] (new_BloomFilter bloomSize k) ''Memory''
                        (startKey (nodes ! i)) (endKey (nodes ! (endIdx - 1))))
             (take (endIdx - i) (drop i nodes)))"

text \<open>
  The outer loop \<^verbatim>\<open>for (size_t i = 0; i < nodes.size(); i += ratio)\<close>. \<open>i\<close> is a
  \<^verbatim>\<open>size_t\<close> and \<open>ratio\<close> an \<^verbatim>\<open>int\<close>: \<open>i + ratio\<close> is computed modulo \<open>2 ^ 64\<close> after
  \<open>ratio\<close> is converted to \<^verbatim>\<open>size_t\<close>. The loop need not end, so it is a partial function:
  \<open>None\<close> is "does not return".
\<close>

definition size_t_add :: "nat \<Rightarrow> int \<Rightarrow> nat" where
  "size_t_add i ratio = (i + nat (ratio mod 2 ^ 64)) mod 2 ^ 64"

partial_function (option) group_level ::
  "int \<Rightarrow> nat \<Rightarrow> int \<Rightarrow> Node list \<Rightarrow> nat \<Rightarrow> Node list \<Rightarrow> (error + Node list) option" where
  "group_level ratio bloomSize k nodes i parentLevel =
     (if i < length nodes then
        (case make_parent bloomSize k nodes i (min (size_t_add i ratio) (length nodes)) of
           Inl e \<Rightarrow> Some (Inl e)
         | Inr parent \<Rightarrow>
             group_level ratio bloomSize k nodes (size_t_add i ratio) (parentLevel @ [parent]))
      else Some (Inr parentLevel))"

partial_function (option) buildLevel ::
  "int \<Rightarrow> nat \<Rightarrow> int \<Rightarrow> Node list \<Rightarrow> (error + Node) option" where
  "buildLevel ratio bloomSize k nodes =
     (if length nodes = 1 then Some (Inr (hd nodes))
      else
        (case group_level ratio bloomSize k nodes 0 [] of
           None \<Rightarrow> None
         | Some (Inl e) \<Rightarrow> Some (Inl e)
         | Some (Inr parentLevel) \<Rightarrow> buildLevel ratio bloomSize k parentLevel))"

subsection \<open>Index tree\<close>

text \<open>
  The fields of \<^verbatim>\<open>BloomTree\<close>; its hash count is named \<open>treeNumHashFunctions\<close> because
  the filter record has a field of the source's name. The constructor leaves \<^verbatim>\<open>root\<close>
  uninitialised: \<open>None\<close> is the root of a tree that was never built, a pointer without a
  value that may be read.
\<close>

record BloomTree =
  root :: "Node option"
  ratio :: int
  bloomSize :: nat
  treeNumHashFunctions :: int
  leafNodes :: "Node list"

text \<open>The loop of \<^verbatim>\<open>BloomTree::buildTree\<close> that writes one sidecar file per leaf.\<close>

fun save_leaves :: "Node list \<Rightarrow> filesystem \<Rightarrow> error + filesystem" where
  "save_leaves [] fs = Inr fs"
| "save_leaves (node # rest) fs =
     (case BloomFilter_saveToFile (bloom node)
             (filename node @ ''_'' @ startKey node @ ''_'' @ endKey node) fs of
        Inl e \<Rightarrow> Inl e
      | Inr fs' \<Rightarrow> save_leaves rest fs')"

definition buildTree :: "BloomTree \<Rightarrow> filesystem \<Rightarrow> (error + BloomTree \<times> filesystem) option" where
  "buildTree tree fs =
     (case buildLevel (ratio tree) (bloomSize tree) (treeNumHashFunctions tree) (leafNodes tree) of
        None \<Rightarrow> None
      | Some (Inl e) \<Rightarrow> Some (Inl e)
      | Some (Inr r) \<Rightarrow>
          (case save_leaves (leafNodes tree) fs of
             Inl e \<Rightarrow> Some (Inl e)
           | Inr fs' \<Rightarrow> Some (Inr (tree\<lparr>root := Some r\<rparr>, fs'))))"

text \<open>
  \<^verbatim>\<open>BloomManager::createPartitionedHierarchy\<close>: one partitioning task per file; the futures
  are joined in file order, so the leaves are the per-file leaves in file order.
\<close>

definition createPartitionedHierarchy ::
  "sst_store \<Rightarrow> filesystem \<Rightarrow> string list \<Rightarrow> nat \<Rightarrow> nat \<Rightarrow> int \<Rightarrow> int \<Rightarrow>
     (error + BloomTree \<times> filesystem) option" where
  "createPartitionedHierarchy db fs sstFiles partitionSize bloomSz k branchingRatio =
     buildTree
       \<lparr>root = None, ratio = branchingRatio, bloomSize = bloomSz, treeNumHashFunctions = k,
        leafNodes = concat (map (\<lambda>sstFile. processSSTFile db sstFile partitionSize bloomSz k)
                              sstFiles)\<rparr>
       fs"

subsection \<open>Global state of a query\<close>

text \<open>
  The three process-global atomic counters and the global vector \<^verbatim>\<open>globalfinalMatches\<close> of
  \<^verbatim>\<open>include/algorithm.hpp\<close>.
\<close>

record globals =
  gBloomCheckCount :: nat
  gLeafBloomCheckCount :: nat
  gSSTCheckCount :: nat
  globalfinalMatches :: "string list"

subsection \<open>Per-column query\<close>

text \<open>The overlap test of \<^verbatim>\<open>BloomTree::search\<close>; an empty bound is no bound.\<close>

definition overlaps :: "Node \<Rightarrow> string \<Rightarrow> string \<Rightarrow> bool" where
  "overlaps node qStart qEnd \<longleftrightarrow>
     (qEnd = [] \<or> startKey node \<le> qEnd) \<and> (qStart = [] \<or> endKey node \<ge> qStart)"

text \<open>A filter consultation is counted, and counted again when the node is a leaf.\<close>

definition count_probe :: "Node \<Rightarrow> globals \<Rightarrow> globals" where
  "count_probe node g =
     (let g1 = g\<lparr>gBloomCheckCount := gBloomCheckCount g + 1\<rparr>
      in if filename node \<noteq> ''Memory''
         then g1\<lparr>gLeafBloomCheckCount := gLeafBloomCheckCount g1 + 1\<rparr> else g1)"

text \<open>
  \<^verbatim>\<open>BloomTree::search\<close> appends to the result vector it is given and recurses into the
  children of a filter-positive interior node; it ends because a child is smaller than its
  parent.
\<close>

lemma size_child: "c \<in> set (children n) \<Longrightarrow> size c < size n"
  by (cases n) (auto simp: less_Suc_eq_le intro: size_list_estimation')

function search :: "Node \<Rightarrow> string \<Rightarrow> string \<Rightarrow> string \<Rightarrow> string list \<times> globals \<Rightarrow> string list \<times> globals" where
  "search node v qStart qEnd (results, g) =
     (if overlaps node qStart qEnd then
        (let g1 = count_probe node g
         in if BloomFilter_exists (bloom node) v then
              (if filename node \<noteq> ''Memory'' then (results @ [filename node], g1)
               else fold (\<lambda>child acc. search child v qStart qEnd acc) (children node) (results, g1))
            else (results, g1))
      else (results, g))"
  by pat_completeness auto
termination
  by (relation "measure (\<lambda>(node, v, qStart, qEnd, acc). size node)") (auto simp: size_child)

text \<open>
  \<^verbatim>\<open>BloomTree::query\<close> passes \<^verbatim>\<open>root\<close> to \<^verbatim>\<open>search\<close>. The constructor does not initialise
  \<^verbatim>\<open>root\<close>, and \<^verbatim>\<open>buildLevel\<close> is the only place that assigns it: \<open>None\<close> is the root of a
  tree that was never built, an indeterminate pointer, and reading it is undefined. (The
  null test at the head of \<^verbatim>\<open>search\<close> never fires below a root: the builder stores no
  null child.)
\<close>

definition query ::
  "BloomTree \<Rightarrow> string \<Rightarrow> string \<Rightarrow> string \<Rightarrow> globals \<Rightarrow> error + string list \<times> globals" where
  "query tree v qStart qEnd g =
     (case root tree of
        None \<Rightarrow> Inl UndefinedBehaviour
      | Some r \<Rightarrow> Inr (search r v qStart qEnd ([], g)))"


subsection \<open>Multi-column query\<close>

record Combo =
  nodes :: "Node list"
  rangeStart :: string
  rangeEnd :: string

text \<open>
  The intersection loop of \<^verbatim>\<open>finalSstScanAndIntersect\<close>, leaving at an empty
  intermediate result. A \<^verbatim>\<open>std::unordered_set\<close> is a duplicate-free list here; the source
  leaves the iteration order of the set open, the model keeps the order of the scan.
\<close>

fun intersect_sets :: "string list \<Rightarrow> string list list \<Rightarrow> string list" where
  "intersect_sets result [] = result"
| "intersect_sets result (keySet # rest) =
     (let temp = filter (\<lambda>key. key \<in> set keySet) result
      in if temp = [] then temp else intersect_sets temp rest)"

definition finalSstScanAndIntersect ::
  "sst_store \<Rightarrow> Combo \<Rightarrow> string list \<Rightarrow> globals \<Rightarrow> string list \<times> globals" where
  "finalSstScanAndIntersect db combo values g =
     (let g1 = g\<lparr>gSSTCheckCount := gSSTCheckCount g + length (nodes combo)\<rparr>;
          columnKeySets =
            map (\<lambda>(leaf, v). remdups (scanFileForKeysWithValue db (filename leaf) v
                                 (max (rangeStart combo) (startKey leaf))
                                 (min (rangeEnd combo) (endKey leaf))))
                (zip (nodes combo) values)
      in case columnKeySets of
           [] \<Rightarrow> ([], g1)
         | first # rest \<Rightarrow> (intersect_sets first rest, g1))"

text \<open>
  The root check of the initial call of \<^verbatim>\<open>dfsMultiColumn\<close>, over the columns in order:
  \<^verbatim>\<open>nodes[i]\<close> is paired with \<^verbatim>\<open>values[i]\<close>. It returns at the first filter that misses.
\<close>

fun check_roots :: "(Node \<times> string) list \<Rightarrow> globals \<Rightarrow> bool \<times> globals" where
  "check_roots [] g = (True, g)"
| "check_roots ((node, v) # rest) g =
     (let g1 = g\<lparr>gBloomCheckCount := gBloomCheckCount g + 1\<rparr>
      in if \<not> BloomFilter_exists (bloom node) v then (False, g1) else check_roots rest g1)"

text \<open>
  The variables of one column while its candidates are collected, and the lambda
  \<^verbatim>\<open>consider\<close> of the source, which updates them and the counters.
\<close>

record column_state =
  options :: "Node list"
  colMin :: string
  colMax :: string
  found :: bool

definition consider_node ::
  "string \<Rightarrow> string \<Rightarrow> string \<Rightarrow> Node \<Rightarrow> column_state \<times> globals \<Rightarrow> column_state \<times> globals" where
  "consider_node v tightStart tightEnd c acc =
     (let cs = fst acc; g = snd acc in
      if endKey c < tightStart \<or> startKey c > tightEnd then (cs, g)
      else
        (let g1 = count_probe c g
         in if \<not> BloomFilter_exists (bloom c) v then (cs, g1)
            else if \<not> found cs
              then (\<lparr>options = options cs @ [c], colMin = startKey c, colMax = endKey c,
                     found = True\<rparr>, g1)
              else (\<lparr>options = options cs @ [c], colMin = min (colMin cs) (startKey c),
                     colMax = max (colMax cs) (endKey c), found = True\<rparr>, g1)))"

text \<open>The nodes a column offers to \<^verbatim>\<open>consider\<close>: the children of an interior node, or the leaf itself.\<close>

definition expand :: "Node \<Rightarrow> Node list" where
  "expand node = (if filename node = ''Memory'' then children node else [node])"

text \<open>
  The loop over the columns that fills \<^verbatim>\<open>candidateOptions\<close> and tightens the range after
  every column but the last; \<open>None\<close> is the early \<^verbatim>\<open>return\<close> of \<^verbatim>\<open>dfsMultiColumn\<close>.
\<close>

fun build_candidates ::
  "(Node \<times> string) list \<Rightarrow> Node list list \<Rightarrow> string \<Rightarrow> string \<Rightarrow> globals \<Rightarrow>
     Node list list option \<times> globals" where
  "build_candidates [] candidateOptions tightStart tightEnd g = (Some candidateOptions, g)"
| "build_candidates ((node, v) # rest) candidateOptions tightStart tightEnd g =
     (case fold (consider_node v tightStart tightEnd) (expand node)
             (\<lparr>options = [], colMin = [], colMax = [], found = False\<rparr>, g) of
        (cs, g1) \<Rightarrow>
          if \<not> found cs then (None, g1)
          else if rest \<noteq> [] then
            (let ts = max tightStart (colMin cs); te = min tightEnd (colMax cs)
             in if ts > te then (None, g1)
                else build_candidates rest (candidateOptions @ [options cs]) ts te g1)
          else build_candidates rest (candidateOptions @ [options cs]) tightStart tightEnd g1)"

text \<open>
  The lambda \<^verbatim>\<open>backtrack\<close> enumerates the assignments of one candidate per column whose
  running range stays non-empty, and calls \<^verbatim>\<open>dfsMultiColumn\<close> on each. The enumeration
  reads nothing that the recursive calls write (they change only the global counters and
  the global result), so the model lists the combos first, in the order of the source,
  and \<open>dfsMultiColumn\<close> folds over the list.
\<close>

fun backtrack :: "Node list list \<Rightarrow> Node list \<Rightarrow> string \<Rightarrow> string \<Rightarrow> Combo list" where
  "backtrack [] chosen curS curE = [\<lparr>nodes = chosen, rangeStart = curS, rangeEnd = curE\<rparr>]"
| "backtrack (cands # rest) chosen curS curE =
     concat (map (\<lambda>cand.
        (let ns = max curS (startKey cand); ne = min curE (endKey cand)
         in if ns \<le> ne then backtrack rest (chosen @ [cand]) ns ne else [])) cands)"

text \<open>Facts for the termination of \<^verbatim>\<open>dfsMultiColumn\<close>: every step replaces each node by itself
  or one of its children, and at least one node by a child.\<close>

lemma fold_consider_options:
  "set (options (fst (fold (consider_node v ts te) cs acc))) \<subseteq> set (options (fst acc)) \<union> set cs"
proof (induction cs arbitrary: acc)
  case Nil
  then show ?case by simp
next
  case (Cons c cs)
  have "set (options (fst (consider_node v ts te c acc))) \<subseteq> set (options (fst acc)) \<union> {c}"
    by (auto simp: consider_node_def Let_def)
  with Cons[of "consider_node v ts te c acc"] show ?case by auto
qed

lemma build_candidates_shape:
  "build_candidates nvs acc ts te g = (Some cands, g') \<Longrightarrow>
     \<exists>new. cands = acc @ new \<and> list_all2 (\<lambda>opts nv. set opts \<subseteq> set (expand (fst nv))) new nvs"
proof (induction nvs acc ts te g rule: build_candidates.induct)
  case (1 candidateOptions tightStart tightEnd g)
  then show ?case by simp
next
  case (2 node v rest candidateOptions tightStart tightEnd g)
  obtain cs g1 where f: "fold (consider_node v tightStart tightEnd) (expand node)
             (\<lparr>options = [], colMin = [], colMax = [], found = False\<rparr>, g) = (cs, g1)"
    by (cases "fold (consider_node v tightStart tightEnd) (expand node)
             (\<lparr>options = [], colMin = [], colMax = [], found = False\<rparr>, g)") auto
  have sub: "set (options cs) \<subseteq> set (expand node)"
    using fold_consider_options[of v tightStart tightEnd "expand node"
        "(\<lparr>options = [], colMin = [], colMax = [], found = False\<rparr>, g)"] f by simp
  from "2.prems" f have fnd: "found cs" by (auto split: if_splits)
  show ?case
  proof (cases "rest \<noteq> []")
    case True
    with "2.prems" f fnd have le: "\<not> max tightStart (colMin cs) > min tightEnd (colMax cs)"
      and rec: "build_candidates rest (candidateOptions @ [options cs])
                 (max tightStart (colMin cs)) (min tightEnd (colMax cs)) g1 = (Some cands, g')"
      by (auto simp: Let_def split: if_splits)
    from "2.IH"(1)[OF f[symmetric] _ True refl refl _ rec] fnd le
    obtain new where "cands = (candidateOptions @ [options cs]) @ new"
      "list_all2 (\<lambda>opts nv. set opts \<subseteq> set (expand (fst nv))) new rest" by auto
    with sub show ?thesis by (intro exI[of _ "options cs # new"]) simp
  next
    case False
    with "2.prems" f fnd have
      rec: "build_candidates rest (candidateOptions @ [options cs]) tightStart tightEnd g1
              = (Some cands, g')"
      by (auto simp: Let_def split: if_splits)
    from "2.IH"(2)[OF f[symmetric] _ _ rec] fnd False
    obtain new where "cands = (candidateOptions @ [options cs]) @ new"
      "list_all2 (\<lambda>opts nv. set opts \<subseteq> set (expand (fst nv))) new rest" by auto
    with sub show ?thesis by (intro exI[of _ "options cs # new"]) simp
  qed
qed

lemma backtrack_shape:
  "combo \<in> set (backtrack cands chosen curS curE) \<Longrightarrow>
     \<exists>picks. nodes combo = chosen @ picks \<and> list_all2 (\<lambda>p opts. p \<in> set opts) picks cands"
proof (induction cands arbitrary: chosen curS curE)
  case Nil
  then show ?case by simp
next
  case (Cons opts rest)
  then obtain cand where c: "cand \<in> set opts"
    and m: "combo \<in> set (backtrack rest (chosen @ [cand]) (max curS (startKey cand))
                             (min curE (endKey cand)))"
    by (auto simp: Let_def split: if_splits)
  from Cons.IH[OF m] obtain picks where "nodes combo = (chosen @ [cand]) @ picks"
    "list_all2 (\<lambda>p opts. p \<in> set opts) picks rest" by auto
  with c show ?case by (intro exI[of _ "cand # picks"]) simp
qed

lemma expand_size_le: "p \<in> set (expand nd) \<Longrightarrow> size p \<le> size nd"
  by (auto simp: expand_def dest: size_child split: if_splits)

lemma expand_size_less: "p \<in> set (expand nd) \<Longrightarrow> filename nd = ''Memory'' \<Longrightarrow> size p < size nd"
  by (auto simp: expand_def dest: size_child)

lemma size_Node_pos: "0 < size (nd :: Node)"
  by (cases nd) simp

lemma picks_sum_le:
  "list_all2 (\<lambda>p nv. p \<in> set (expand (fst nv))) picks (zip nds vals) \<Longrightarrow>
     sum_list (map size picks) \<le> sum_list (map size nds)"
proof (induction nds arbitrary: picks vals)
  case Nil
  then show ?case by simp
next
  case (Cons nd nds)
  show ?case
  proof (cases vals)
    case Nil
    with Cons.prems show ?thesis by simp
  next
    case (Cons v vs)
    with Cons.prems obtain p ps where ps: "picks = p # ps" "p \<in> set (expand nd)"
      "list_all2 (\<lambda>p nv. p \<in> set (expand (fst nv))) ps (zip nds vs)"
      by (auto simp: list_all2_Cons2)
    from Cons.IH[OF ps(3)] expand_size_le[OF ps(2)] ps(1) show ?thesis by simp
  qed
qed

lemma picks_sum_less:
  "list_all2 (\<lambda>p nv. p \<in> set (expand (fst nv))) picks (zip nds vals) \<Longrightarrow>
   \<not> list_all (\<lambda>nd. filename nd \<noteq> ''Memory'') nds \<Longrightarrow>
     sum_list (map size picks) < sum_list (map size nds)"
proof (induction nds arbitrary: picks vals)
  case Nil
  then show ?case by simp
next
  case (Cons nd nds)
  show ?case
  proof (cases vals)
    case Nil
    with Cons.prems size_Node_pos[of nd] show ?thesis by simp
  next
    case (Cons v vs)
    with Cons.prems(1) obtain p ps where ps: "picks = p # ps" "p \<in> set (expand nd)"
      "list_all2 (\<lambda>p nv. p \<in> set (expand (fst nv))) ps (zip nds vs)"
      by (auto simp: list_all2_Cons2)
    show ?thesis
    proof (cases "filename nd = ''Memory''")
      case True
      with ps(2) have "size p < size nd" by (rule expand_size_less)
      with picks_sum_le[OF ps(3)] ps(1) show ?thesis by simp
    next
      case False
      with Cons.prems(2) have "\<not> list_all (\<lambda>nd. filename nd \<noteq> ''Memory'') nds" by simp
      from Cons.IH[OF ps(3) this] expand_size_le[OF ps(2)] ps(1) show ?thesis by simp
    qed
  qed
qed

lemma dfs_step_decreases:
  assumes bc: "build_candidates (zip nds vals) [] s e g = (Some cands, g')"
    and bt: "combo \<in> set (backtrack cands [] s e)"
    and nl: "\<not> list_all (\<lambda>nd. filename nd \<noteq> ''Memory'') nds"
  shows "sum_list (map size (nodes combo)) < sum_list (map size nds)"
proof -
  from build_candidates_shape[OF bc]
  have l2: "list_all2 (\<lambda>opts nv. set opts \<subseteq> set (expand (fst nv))) cands (zip nds vals)"
    by simp
  from backtrack_shape[OF bt] have l1: "list_all2 (\<lambda>p opts. p \<in> set opts) (nodes combo) cands"
    by auto
  have "list_all2 (\<lambda>p nv. p \<in> set (expand (fst nv))) (nodes combo) (zip nds vals)"
    by (rule list_all2_trans[OF _ l1 l2]) auto
  then show ?thesis using nl by (rule picks_sum_less)
qed

function dfsMultiColumn ::
  "sst_store \<Rightarrow> string list \<Rightarrow> Combo \<Rightarrow> bool \<Rightarrow> globals \<Rightarrow> globals" where
  "dfsMultiColumn db values currentCombo isInitialCall g =
     (case (if isInitialCall then check_roots (zip (nodes currentCombo) values) g else (True, g)) of
        (rootsOk, g1) \<Rightarrow>
          if \<not> rootsOk then g1
          else if rangeStart currentCombo > rangeEnd currentCombo then g1
          else if list_all (\<lambda>nd. filename nd \<noteq> ''Memory'') (nodes currentCombo) then
            (case finalSstScanAndIntersect db currentCombo values g1 of
               (keys, g2) \<Rightarrow> g2\<lparr>globalfinalMatches := globalfinalMatches g2 @ keys\<rparr>)
          else
            (case build_candidates (zip (nodes currentCombo) values) []
                    (rangeStart currentCombo) (rangeEnd currentCombo) g1 of
               (None, g2) \<Rightarrow> g2
             | (Some candidateOptions, g2) \<Rightarrow>
                 fold (\<lambda>next acc. dfsMultiColumn db values next False acc)
                      (backtrack candidateOptions [] (rangeStart currentCombo)
                         (rangeEnd currentCombo))
                      g2))"
  by pat_completeness auto
termination
proof (relation "measure (\<lambda>(db, values, combo, isInitialCall, g). sum_list (map size (nodes combo)))",
       goal_cases)
  case 1
  then show ?case by simp
next
  case (2 db vals currentCombo isInitialCall g x y xa ya x2 xb xc)
  from 2(5,6) have "build_candidates (zip (nodes currentCombo) vals) [] (rangeStart currentCombo)
      (rangeEnd currentCombo) y = (Some x2, ya)" by simp
  from dfs_step_decreases[OF this 2(7) 2(4)] show ?case by simp
qed

text \<open>The equation of \<open>dfsMultiColumn\<close> contains the function again: it is applied by hand.\<close>

declare dfsMultiColumn.simps [simp del]

text \<open>
  The entry point. Without the shape check passing it returns an empty vector and touches
  nothing. \<^verbatim>\<open>trees[i].root\<close> is dereferenced unchecked, which is undefined for a tree that
  was never built.
\<close>

definition multiColumnQueryHierarchical ::
  "sst_store \<Rightarrow> BloomTree list \<Rightarrow> string list \<Rightarrow> string \<Rightarrow> string \<Rightarrow> globals \<Rightarrow>
     error + string list \<times> globals" where
  "multiColumnQueryHierarchical db trees values globalStart globalEnd g =
     (if length trees = 0 \<or> length trees \<noteq> length values then Inr ([], g)
      else if list_ex (\<lambda>t. root t = None) trees then Inl UndefinedBehaviour
      else
        (let g0 = g\<lparr>gBloomCheckCount := 0, gLeafBloomCheckCount := 0, gSSTCheckCount := 0\<rparr>;
             roots = map (\<lambda>t. the (root t)) trees;
             s0 = (if globalStart = [] then startKey (hd roots) else globalStart);
             e0 = (if globalEnd = [] then endKey (hd roots) else globalEnd);
             s = fold (\<lambda>r s. max s (startKey r)) roots s0;
             e = fold (\<lambda>r e. min e (endKey r)) roots e0;
             g1 = dfsMultiColumn db values \<lparr>nodes = roots, rangeStart = s, rangeEnd = e\<rparr> True
                    (g0\<lparr>globalfinalMatches := []\<rparr>)
         in Inr (globalfinalMatches g1, g1)))"

subsection \<open>Auxiliary predicates for the statements\<close>

text \<open>
  A filter whose fields fit their C++ types and whose bit array has the declared length:
  \<^verbatim>\<open>size_t\<close> is 64 bits wide (and \<open>bitArraySize + 7\<close> does not wrap), \<^verbatim>\<open>int\<close> is 32 bits
  wide.
\<close>

definition representable :: "BloomFilter \<Rightarrow> bool" where
  "representable bf \<longleftrightarrow>
     length (bitArray bf) = bitArraySize bf \<and> bitArraySize bf + 7 < 2 ^ 64 \<and>
     - (2 ^ 31) \<le> numHashFunctions bf \<and> numHashFunctions bf < 2 ^ 31"

text \<open>The file system without any file.\<close>

definition no_files :: filesystem where
  "no_files path = Absent"

text \<open>
  The partition the specification describes for a file and a leaf size \<open>N\<close>: runs of \<open>N\<close>
  records and, at the end, a shorter non-empty rest. (For \<open>N = 0\<close> the description gives
  no run.) \<open>leaf_of_run\<close> is the leaf that summarises one run: the values inserted into a
  fresh filter, the file as source tag, the first and the last key as range.
\<close>

function runs_of :: "nat \<Rightarrow> 'a list \<Rightarrow> 'a list list" where
  "runs_of N xs = (if N = 0 \<or> xs = [] then [] else take N xs # runs_of N (drop N xs))"
  by pat_completeness auto
termination
  by (relation "measure (\<lambda>(N, xs). length xs)") auto

declare runs_of.simps [simp del]

definition leaf_of_run :: "string \<Rightarrow> nat \<Rightarrow> int \<Rightarrow> (string \<times> string) list \<Rightarrow> Node" where
  "leaf_of_run sstFile bsz k run =
     Node [] (foldl BloomFilter_insert (new_BloomFilter bsz k) (map snd run)) sstFile
          (fst (hd run)) (fst (last run))"

text \<open>
  The state of the partitioner loop with the leaves \<open>ps\<close> emitted and the records \<open>p\<close>
  of the open partition, and the emission after the loop.
\<close>

definition pending :: "nat \<Rightarrow> int \<Rightarrow> partition_state \<Rightarrow> Node list \<Rightarrow> (string \<times> string) list \<Rightarrow> bool" where
  "pending bsz k st ps p \<longleftrightarrow>
     partitions st = ps \<and> currentCount st = length p \<and>
     partitionBloom st = foldl BloomFilter_insert (new_BloomFilter bsz k) (map snd p) \<and>
     firstEntry st = (p = []) \<and>
     (p \<noteq> [] \<longrightarrow> partitionStartKey st = fst (hd p) \<and> lastKey st = fst (last p))"

definition flush :: "string \<Rightarrow> partition_state \<Rightarrow> Node list" where
  "flush sstFile st =
     (if currentCount st > 0
      then partitions st @
             [Node [] (partitionBloom st) sstFile (partitionStartKey st) (lastKey st)]
      else partitions st)"

text \<open>The store without any sorted file.\<close>

definition no_ssts :: sst_store where
  "no_ssts path = None"

text \<open>
  The parent that \<^verbatim>\<open>buildLevel\<close> makes of a group whose filters all have the tree's length:
  the children, the union of their filters, the sentinel tag and the range started at
  the first child's start key and the last child's end key and widened child by child.
  \<open>level_ok\<close> says that every filter of a level has the tree's bit-array length, so that no
  \<^verbatim>\<open>merge\<close> throws.
\<close>

definition parent_node :: "nat \<Rightarrow> int \<Rightarrow> Node list \<Rightarrow> Node" where
  "parent_node bsz k run =
     Node run
       (foldl (\<lambda>b c. snd (BloomFilter_merge b (bloom c))) (new_BloomFilter bsz k) run)
       ''Memory''
       (foldl (\<lambda>s c. if s > startKey c then startKey c else s) (startKey (hd run)) run)
       (foldl (\<lambda>e c. if e < endKey c then endKey c else e) (endKey (last run)) run)"

definition level_ok :: "nat \<Rightarrow> Node list \<Rightarrow> bool" where
  "level_ok bsz nds \<longleftrightarrow> (\<forall>c \<in> set nds. length (bitArray (bloom c)) = bsz)"

text \<open>The trees over a set \<open>L\<close> of leaves: a leaf, or the parent of a group of at most \<open>r\<close> trees.\<close>

inductive built :: "int \<Rightarrow> nat \<Rightarrow> int \<Rightarrow> Node set \<Rightarrow> Node \<Rightarrow> bool"
  for r :: int and bsz :: nat and k :: int and L :: "Node set" where
  built_leaf: "n \<in> L \<Longrightarrow> built r bsz k L n"
| built_parent:
    "run \<noteq> [] \<Longrightarrow> length run \<le> nat r \<Longrightarrow> level_ok bsz run \<Longrightarrow>
     (\<forall>c \<in> set run. built r bsz k L c) \<Longrightarrow> built r bsz k L (parent_node bsz k run)"

text \<open>
  The nodes of a tree, and the leaves below a node. A filter has the shape \<open>(m, k)\<close> when
  its size field, the length of its bit array and its hash count are \<open>m\<close>, \<open>m\<close> and \<open>k\<close>.
  An interior node summarises its children when it carries the sentinel tag, its range is
  the least start key and the greatest end key of its children, and its filter is the
  bitwise OR of theirs; it spans its leaves when the same holds with respect to the leaves
  below it.
\<close>

fun subnodes :: "Node \<Rightarrow> Node list" where
  "subnodes (Node ch bl fn sk ek) = Node ch bl fn sk ek # concat (map subnodes ch)"

fun leaves_under :: "Node \<Rightarrow> Node list" where
  "leaves_under (Node ch bl fn sk ek) =
     (if ch = [] then [Node ch bl fn sk ek] else concat (map leaves_under ch))"

definition filter_shape :: "nat \<Rightarrow> int \<Rightarrow> BloomFilter \<Rightarrow> bool" where
  "filter_shape bsz k bf \<longleftrightarrow>
     bitArraySize bf = bsz \<and> length (bitArray bf) = bsz \<and> numHashFunctions bf = k"

definition summarises :: "nat \<Rightarrow> int \<Rightarrow> Node \<Rightarrow> bool" where
  "summarises bsz k n \<longleftrightarrow>
     filename n = ''Memory'' \<and>
     bitArraySize (bloom n) = bsz \<and> length (bitArray (bloom n)) = bsz \<and>
     numHashFunctions (bloom n) = k \<and>
     startKey n = Min (startKey ` set (children n)) \<and>
     endKey n = Max (endKey ` set (children n)) \<and>
     (\<forall>i < bsz. bitArray (bloom n) ! i \<longleftrightarrow> (\<exists>c \<in> set (children n). bitArray (bloom c) ! i))"

definition spans_leaves :: "nat \<Rightarrow> Node \<Rightarrow> bool" where
  "spans_leaves bsz n \<longleftrightarrow>
     startKey n = Min (startKey ` set (leaves_under n)) \<and>
     endKey n = Max (endKey ` set (leaves_under n)) \<and>
     (\<forall>i < bsz. bitArray (bloom n) ! i \<longleftrightarrow> (\<exists>l \<in> set (leaves_under n). bitArray (bloom l) ! i))"

definition node_inv :: "nat \<Rightarrow> int \<Rightarrow> Node set \<Rightarrow> Node \<Rightarrow> bool" where
  "node_inv bsz k L n \<longleftrightarrow>
     filter_shape bsz k (bloom n) \<and> leaves_under n \<noteq> [] \<and> set (leaves_under n) \<subseteq> L \<and>
     spans_leaves bsz n"

text \<open>
  The per-column query in the words of the specification: the root-to-leaf paths of a
  tree in depth-first order, a leaf being a node without children; a node passes when it
  overlaps the query range and its filter is positive for the value; the answer is the
  source tag of the leaf of every path all of whose nodes pass.
\<close>

fun root_to_leaf_paths :: "Node \<Rightarrow> Node list list" where
  "root_to_leaf_paths (Node ch bl fn sk ek) =
     (if ch = [] then [[Node ch bl fn sk ek]]
      else map ((#) (Node ch bl fn sk ek)) (concat (map root_to_leaf_paths ch)))"

definition passes :: "string \<Rightarrow> string \<Rightarrow> string \<Rightarrow> Node \<Rightarrow> bool" where
  "passes v qStart qEnd node \<longleftrightarrow>
     ((qEnd = [] \<or> startKey node \<le> qEnd) \<and> (qStart = [] \<or> endKey node \<ge> qStart)) \<and>
     BloomFilter_exists (bloom node) v"

definition query_spec :: "Node \<Rightarrow> string \<Rightarrow> string \<Rightarrow> string \<Rightarrow> string list" where
  "query_spec r v qStart qEnd =
     map (\<lambda>p. filename (last p)) (filter (list_all (passes v qStart qEnd)) (root_to_leaf_paths r))"

text \<open>
  The code tells a leaf from an interior node by the source tag, not by the children. In a
  well-tagged tree the two agree: the nodes without children are those whose tag is not
  the sentinel. In a well-formed tree every filter is moreover one on which \<open>exists\<close> is
  defined.
\<close>

definition well_tagged :: "Node \<Rightarrow> bool" where
  "well_tagged r \<longleftrightarrow>
     (\<forall>n \<in> set (subnodes r). children n = [] \<longleftrightarrow> filename n \<noteq> ''Memory'')"

definition well_formed_tree :: "Node \<Rightarrow> bool" where
  "well_formed_tree r \<longleftrightarrow> well_tagged r \<and> (\<forall>n \<in> set (subnodes r). wf_filter (bloom n))"

text \<open>The global state with all counters at zero and no match.\<close>

definition zero_globals :: globals where
  "zero_globals = \<lparr>gBloomCheckCount = 0, gLeafBloomCheckCount = 0, gSSTCheckCount = 0,
                    globalfinalMatches = []\<rparr>"

text \<open>A store all of whose files are sorted by key, as sorted string tables are.\<close>

definition sorted_store :: "sst_store \<Rightarrow> bool" where
  "sorted_store db \<longleftrightarrow> (\<forall>f records. db f = Some records \<longrightarrow> sorted (map fst records))"

text \<open>
  The invariant of the combos the traversal visits, for global bounds \<open>gs\<close> and \<open>ge\<close>: the
  joint range lies inside the global bounds and inside the range of every node of the
  combo. \<open>dleaf_scan\<close> says that a key is found by scanning, within the global bounds, the
  file of some leaf below a node. \<open>starts_nonempty\<close> says that no start key below a node
  is the empty string.
\<close>

definition combo_inv :: "string \<Rightarrow> string \<Rightarrow> Combo \<Rightarrow> bool" where
  "combo_inv gs ge combo \<longleftrightarrow>
     (gs = [] \<or> gs \<le> rangeStart combo) \<and> (ge = [] \<or> rangeEnd combo \<le> ge) \<and>
     (\<forall>nd \<in> set (nodes combo). startKey nd \<le> rangeStart combo \<and> rangeEnd combo \<le> endKey nd)"

definition dleaf_scan :: "sst_store \<Rightarrow> string \<Rightarrow> string \<Rightarrow> string \<Rightarrow> string \<Rightarrow> Node \<Rightarrow> bool" where
  "dleaf_scan db gs ge v key nd \<longleftrightarrow>
     (\<exists>l \<in> set (subnodes nd). filename l \<noteq> ''Memory'' \<and>
        key \<in> set (scanFileForKeysWithValue db (filename l) v gs ge))"

definition starts_nonempty :: "Node \<Rightarrow> bool" where
  "starts_nonempty nd \<longleftrightarrow> (\<forall>s \<in> set (subnodes nd). startKey s \<noteq> [])"

text \<open>
  A root paired with its value tests positive. \<open>start_combo\<close> is the seed combo of
  \<^verbatim>\<open>multiColumnQueryHierarchical\<close> and \<open>reset_globals\<close> the state it starts from.
\<close>

definition root_positive :: "Node \<times> string \<Rightarrow> bool" where
  "root_positive nv \<longleftrightarrow> BloomFilter_exists (bloom (fst nv)) (snd nv)"

definition start_combo :: "BloomTree list \<Rightarrow> string \<Rightarrow> string \<Rightarrow> Combo" where
  "start_combo trees globalStart globalEnd =
     \<lparr>nodes = map (\<lambda>t. the (root t)) trees,
      rangeStart = fold (\<lambda>r s. max s (startKey r)) (map (\<lambda>t. the (root t)) trees)
                     (if globalStart = [] then startKey (hd (map (\<lambda>t. the (root t)) trees))
                      else globalStart),
      rangeEnd = fold (\<lambda>r e. min e (endKey r)) (map (\<lambda>t. the (root t)) trees)
                   (if globalEnd = [] then endKey (hd (map (\<lambda>t. the (root t)) trees))
                    else globalEnd)\<rparr>"

definition reset_globals :: "globals \<Rightarrow> globals" where
  "reset_globals g = g\<lparr>gBloomCheckCount := 0, gLeafBloomCheckCount := 0, gSSTCheckCount := 0,
                        globalfinalMatches := []\<rparr>"

subsection \<open>Auxiliary predicates for the multi-column query\<close>

text \<open>
  A key is within reach of a node for a value when the node's range contains the key, its
  filter is positive for the value and, for a leaf, the record \<open>(key, value)\<close> is in the
  leaf's file, for an interior node, the key is within reach of one of its children.
  \<open>accepts\<close> is the test of the lambda \<^verbatim>\<open>consider\<close> of \<^verbatim>\<open>dfsMultiColumn\<close>; \<open>state_ok\<close> is the
  invariant of its captured variables: \<^verbatim>\<open>found\<close> tells whether an option was kept, and
  \<^verbatim>\<open>[colMin, colMax]\<close> contains the range of every option kept.
\<close>

fun hit :: "sst_store \<Rightarrow> string \<Rightarrow> string \<Rightarrow> Node \<Rightarrow> bool" where
  "hit db v key (Node ch bl fn sk ek) \<longleftrightarrow>
     sk \<le> key \<and> key \<le> ek \<and> BloomFilter_exists bl v \<and>
     (if fn \<noteq> ''Memory''
      then (case db fn of None \<Rightarrow> False | Some records \<Rightarrow> (key, v) \<in> set records)
      else (\<exists>c \<in> set ch. hit db v key c))"

definition accepts :: "string \<Rightarrow> string \<Rightarrow> string \<Rightarrow> Node \<Rightarrow> bool" where
  "accepts v ts te c \<longleftrightarrow>
     \<not> (endKey c < ts \<or> startKey c > te) \<and> BloomFilter_exists (bloom c) v"

definition state_ok :: "column_state \<Rightarrow> bool" where
  "state_ok st \<longleftrightarrow>
     (found st \<longleftrightarrow> options st \<noteq> []) \<and>
     (\<forall>c \<in> set (options st). colMin st \<le> startKey c \<and> endKey c \<le> colMax st)"

text \<open>
  A column as \<^verbatim>\<open>BloomManager::createPartitionedHierarchy\<close> receives it: the files of the
  column, the partition size, the filter parameters and the branching ratio.
  \<open>column_leaves\<close> is the leaf vector the builder collects for it. A tree is built for a
  column when its root is what \<^verbatim>\<open>buildLevel\<close> returns on these leaves, for a filter size
  above zero, a ratio of at least two that does not wrap in \<^verbatim>\<open>size_t\<close>, and no file that
  is named like the sentinel of the interior nodes. \<open>no_empty_key\<close> says that no record of
  the column has the empty key, and \<open>column_scan\<close> is the scan of all the files of a column
  for a value within the global bounds.
\<close>

record column =
  colFiles :: "string list"
  colPartitionSize :: nat
  colBloomSize :: nat
  colHashes :: int
  colRatio :: int

definition column_leaves :: "sst_store \<Rightarrow> column \<Rightarrow> Node list" where
  "column_leaves db col =
     concat (map (\<lambda>sstFile. processSSTFile db sstFile (colPartitionSize col) (colBloomSize col)
                               (colHashes col)) (colFiles col))"

definition built_column :: "sst_store \<Rightarrow> column \<Rightarrow> BloomTree \<Rightarrow> bool" where
  "built_column db col tree \<longleftrightarrow>
     0 < colBloomSize col \<and> 2 \<le> colRatio col \<and>
     length (column_leaves db col) + nat (colRatio col) < 2 ^ 64 \<and>
     ''Memory'' \<notin> set (colFiles col) \<and>
     (case root tree of
        None \<Rightarrow> False
      | Some t \<Rightarrow> buildLevel (colRatio col) (colBloomSize col) (colHashes col)
                    (column_leaves db col) = Some (Inr t))"

definition no_empty_key :: "sst_store \<Rightarrow> column \<Rightarrow> bool" where
  "no_empty_key db col \<longleftrightarrow>
     list_all (\<lambda>f. case db f of None \<Rightarrow> True
                   | Some records \<Rightarrow> list_all (\<lambda>x. fst x \<noteq> []) records) (colFiles col)"

definition column_scan :: "sst_store \<Rightarrow> column \<Rightarrow> string \<Rightarrow> string \<Rightarrow> string \<Rightarrow> string list" where
  "column_scan db col v globalStart globalEnd =
     concat (map (\<lambda>f. scanFileForKeysWithValue db f v globalStart globalEnd) (colFiles col))"

section \<open>Bloom filter: insertion, membership and merge\<close>

text \<open>
  An insertion changes nothing but bits, sets the bits of the inserted value and clears
  none, so a value that tests positive stays positive.
\<close>

lemma insert_fold_fields:
  "bitArraySize (fold (\<lambda>i b. b\<lparr>bitArray := (bitArray b)[hash b key (int i) := True]\<rparr>) ixs bf)
     = bitArraySize bf \<and>
   numHashFunctions (fold (\<lambda>i b. b\<lparr>bitArray := (bitArray b)[hash b key (int i) := True]\<rparr>) ixs bf)
     = numHashFunctions bf \<and>
   bitArray (fold (\<lambda>i b. b\<lparr>bitArray := (bitArray b)[hash b key (int i) := True]\<rparr>) ixs bf)
     = fold (\<lambda>i bs. bs[hash bf key (int i) := True]) ixs (bitArray bf)"
proof (induction ixs arbitrary: bf)
  case Nil
  then show ?case by simp
next
  case (Cons i ixs)
  have h: "hash (bf\<lparr>bitArray := bs\<rparr>) = hash bf" for bs
    by (simp add: hash_def fun_eq_iff)
  show ?case using Cons[of "bf\<lparr>bitArray := (bitArray bf)[hash bf key (int i) := True]\<rparr>"]
    by (simp add: h)
qed

lemma fold_set_bits_length: "length (fold (\<lambda>i bs. bs[f i := True]) ixs bs) = length bs"
  by (induction ixs arbitrary: bs) auto

lemma set_bit_nth: "j < length bs \<Longrightarrow> bs[k := True] ! j \<longleftrightarrow> bs ! j \<or> j = k"
  by (cases "k < length bs") (auto simp: nth_list_update)

lemma fold_set_bits_nth:
  "j < length bs \<Longrightarrow>
     fold (\<lambda>i bs. bs[f i := True]) ixs bs ! j \<longleftrightarrow> bs ! j \<or> j \<in> f ` set ixs"
proof (induction ixs arbitrary: bs)
  case Nil
  then show ?case by simp
next
  case (Cons i ixs)
  from Cons.prems have "j < length (bs[f i := True])" by simp
  from Cons.IH[OF this] Cons.prems show ?case by (auto simp: set_bit_nth)
qed

lemma insert_bitArraySize [simp]: "bitArraySize (BloomFilter_insert bf key) = bitArraySize bf"
  by (simp add: BloomFilter_insert_def insert_fold_fields)

lemma insert_numHashFunctions [simp]:
  "numHashFunctions (BloomFilter_insert bf key) = numHashFunctions bf"
  by (simp add: BloomFilter_insert_def insert_fold_fields)

lemma insert_length [simp]: "length (bitArray (BloomFilter_insert bf key)) = length (bitArray bf)"
  by (simp add: BloomFilter_insert_def insert_fold_fields fold_set_bits_length)

lemma insert_hash [simp]: "hash (BloomFilter_insert bf key) = hash bf"
  by (simp add: hash_def fun_eq_iff)

lemma insert_nth:
  "j < length (bitArray bf) \<Longrightarrow>
     bitArray (BloomFilter_insert bf key) ! j \<longleftrightarrow>
       bitArray bf ! j \<or> (\<exists>i < nat (numHashFunctions bf). j = hash bf key (int i))"
  by (auto simp: BloomFilter_insert_def insert_fold_fields fold_set_bits_nth)

lemma wf_filter_insert [simp]: "wf_filter (BloomFilter_insert bf key) = wf_filter bf"
  by (simp add: wf_filter_def)

lemma wf_filter_new [simp]: "wf_filter (new_BloomFilter m k) \<longleftrightarrow> 0 < m"
  by (simp add: wf_filter_def new_BloomFilter_def)

lemma hash_less: "wf_filter bf \<Longrightarrow> hash bf key seed < length (bitArray bf)"
  by (simp add: wf_filter_def hash_def)

lemma exists_iff:
  "BloomFilter_exists bf key \<longleftrightarrow>
     (\<forall>i < nat (numHashFunctions bf). bitArray bf ! hash bf key (int i))"
  by (auto simp: BloomFilter_exists_def list_all_iff)

lemma exists_insert_same: "wf_filter bf \<Longrightarrow> BloomFilter_exists (BloomFilter_insert bf key) key"
  by (auto simp: exists_iff insert_nth hash_less)

lemma exists_insert_mono:
  "wf_filter bf \<Longrightarrow> BloomFilter_exists bf v \<Longrightarrow> BloomFilter_exists (BloomFilter_insert bf key) v"
  by (auto simp: exists_iff insert_nth hash_less)

lemma foldl_insert_fields [simp]:
  "bitArraySize (foldl BloomFilter_insert bf vs) = bitArraySize bf"
  "numHashFunctions (foldl BloomFilter_insert bf vs) = numHashFunctions bf"
  "wf_filter (foldl BloomFilter_insert bf vs) = wf_filter bf"
  by (induction vs arbitrary: bf) auto

lemma exists_foldl_insert_mono:
  "wf_filter bf \<Longrightarrow> BloomFilter_exists bf v \<Longrightarrow> BloomFilter_exists (foldl BloomFilter_insert bf vs) v"
  by (induction vs arbitrary: bf) (auto simp: exists_insert_mono)

lemma exists_foldl_insert:
  "wf_filter bf \<Longrightarrow> v \<in> set vs \<Longrightarrow> BloomFilter_exists (foldl BloomFilter_insert bf vs) v"
  by (induction vs arbitrary: bf)
     (auto simp: exists_insert_same exists_foldl_insert_mono exists_insert_mono)

lemma merge_ok_fields:
  "length (bitArray a) = length (bitArray b) \<Longrightarrow>
     fst (BloomFilter_merge a b) = None \<and>
     bitArraySize (snd (BloomFilter_merge a b)) = bitArraySize a \<and>
     numHashFunctions (snd (BloomFilter_merge a b)) = numHashFunctions a \<and>
     length (bitArray (snd (BloomFilter_merge a b))) = length (bitArray a)"
  by (simp add: BloomFilter_merge_def)

lemma merge_nth:
  "length (bitArray a) = length (bitArray b) \<Longrightarrow> i < length (bitArray a) \<Longrightarrow>
     bitArray (snd (BloomFilter_merge a b)) ! i \<longleftrightarrow> bitArray a ! i \<or> bitArray b ! i"
  by (simp add: BloomFilter_merge_def)

lemma merge_hash:
  "length (bitArray a) = length (bitArray b) \<Longrightarrow> hash (snd (BloomFilter_merge a b)) = hash a"
  by (simp add: BloomFilter_merge_def hash_def fun_eq_iff)

lemma merge_exists_left:
  "wf_filter a \<Longrightarrow> length (bitArray a) = length (bitArray b) \<Longrightarrow>
     BloomFilter_exists a v \<Longrightarrow> BloomFilter_exists (snd (BloomFilter_merge a b)) v"
proof -
  assume a: "wf_filter a" "length (bitArray a) = length (bitArray b)" "BloomFilter_exists a v"
  show ?thesis unfolding exists_iff
  proof (intro allI impI)
    fix i assume "i < nat (numHashFunctions (snd (BloomFilter_merge a b)))"
    then have i: "i < nat (numHashFunctions a)" using a(2) by (simp add: merge_ok_fields)
    with a(3) have "bitArray a ! hash a v (int i)" by (simp add: exists_iff)
    then show "bitArray (snd (BloomFilter_merge a b)) ! hash (snd (BloomFilter_merge a b)) v (int i)"
      using merge_nth[OF a(2) hash_less[OF a(1)], of v "int i"] a(2) by (simp add: merge_hash)
  qed
qed

lemma merge_exists_right:
  "wf_filter a \<Longrightarrow> wf_filter b \<Longrightarrow> bitArraySize a = bitArraySize b \<Longrightarrow>
   numHashFunctions a \<le> numHashFunctions b \<Longrightarrow>
     BloomFilter_exists b v \<Longrightarrow> BloomFilter_exists (snd (BloomFilter_merge a b)) v"
proof -
  assume a: "wf_filter a" "wf_filter b" "bitArraySize a = bitArraySize b"
    "numHashFunctions a \<le> numHashFunctions b" "BloomFilter_exists b v"
  then have len: "length (bitArray a) = length (bitArray b)" by (simp add: wf_filter_def)
  have h: "hash a = hash b" using a(3) by (simp add: hash_def fun_eq_iff)
  show ?thesis unfolding exists_iff
  proof (intro allI impI)
    fix i assume "i < nat (numHashFunctions (snd (BloomFilter_merge a b)))"
    then have i: "i < nat (numHashFunctions b)" using len a(4) by (simp add: merge_ok_fields)
    with a(5) have "bitArray b ! hash b v (int i)" by (simp add: exists_iff)
    then show "bitArray (snd (BloomFilter_merge a b)) ! hash (snd (BloomFilter_merge a b)) v (int i)"
      using merge_nth[OF len hash_less[OF a(1)], of v "int i"] len by (simp add: merge_hash h)
  qed
qed

text \<open>Values of the hash on the strings used as concrete inputs below.\<close>

lemma murmur_x_0: "MurmurHash3_x86_32 ''x'' 0 = 0x3e9a9b1b"
  by (simp add: MurmurHash3_x86_32_def fmix32_def mix_k1_def ROTL32_def)

lemma murmur_x_1: "MurmurHash3_x86_32 ''x'' 1 = 0x4ceaa1e"
  by (simp add: MurmurHash3_x86_32_def fmix32_def mix_k1_def ROTL32_def)

lemma hash_x_8: "bitArraySize bf = 8 \<Longrightarrow> hash bf ''x'' 0 = 3" "bitArraySize bf = 8 \<Longrightarrow> hash bf ''x'' 1 = 6"
  by (simp_all add: hash_def murmur_x_0 murmur_x_1)

subsection \<open>Claim C6: merge\<close>

text \<open>
  Claim C6, as stated: \<^verbatim>\<open>merge\<close> raises \<open>SizeMismatch\<close> exactly when the bit-array lengths
  differ and then leaves the receiver unchanged; when the lengths agree every bit of the
  receiver becomes the OR of the operands' bits, so that afterwards \<open>exists\<close> holds on the
  receiver for every value inserted into either operand before.

  The last part fails when the operands have different hash counts, which \<^verbatim>\<open>merge\<close> does
  not compare: a receiver built with 8 bits and 2 hashes, merged with a filter of 8 bits
  and 1 hash that holds \<open>''x''\<close>, accepts the merge and then denies \<open>''x''\<close>.
\<close>

theorem merge_exists_counterexample:
  "fst (BloomFilter_merge (new_BloomFilter 8 2) (BloomFilter_insert (new_BloomFilter 8 1) ''x'')) = None \<and>
   \<not> BloomFilter_exists
        (snd (BloomFilter_merge (new_BloomFilter 8 2) (BloomFilter_insert (new_BloomFilter 8 1) ''x'')))
        ''x''"
  by (simp add: BloomFilter_merge_def BloomFilter_exists_def BloomFilter_insert_def
      new_BloomFilter_def hash_x_8 upt_rec)

text \<open>
  Claim C6, amended: \<open>SizeMismatch\<close> is raised exactly when the lengths differ, and the
  receiver is then unchanged; when the lengths agree, the merge succeeds, keeps the length,
  the size and the hash count of the receiver and makes every bit the OR of the operands'
  bits; and when both operands were built from empty filters of the same positive size \<open>m\<close>
  by insertions, the receiver's hash count being at most the other operand's, the merge
  succeeds and every value inserted into either operand tests positive on the receiver.
\<close>

theorem BloomFilter_merge_correct:
  "(length (bitArray this) \<noteq> length (bitArray other) \<longrightarrow>
      BloomFilter_merge this other = (Some SizeMismatch, this)) \<and>
   (length (bitArray this) = length (bitArray other) \<longrightarrow>
      fst (BloomFilter_merge this other) = None \<and>
      numHashFunctions (snd (BloomFilter_merge this other)) = numHashFunctions this \<and>
      bitArraySize (snd (BloomFilter_merge this other)) = bitArraySize this \<and>
      length (bitArray (snd (BloomFilter_merge this other))) = length (bitArray this) \<and>
      (\<forall>i < length (bitArray this).
         bitArray (snd (BloomFilter_merge this other)) ! i \<longleftrightarrow>
           bitArray this ! i \<or> bitArray other ! i)) \<and>
   (0 < m \<and> ka \<le> kb \<and> this = foldl BloomFilter_insert (new_BloomFilter m ka) xs \<and>
    other = foldl BloomFilter_insert (new_BloomFilter m kb) ys \<longrightarrow>
      fst (BloomFilter_merge this other) = None \<and>
      (\<forall>v \<in> set xs \<union> set ys. BloomFilter_exists (snd (BloomFilter_merge this other)) v))"
proof (intro conjI impI)
  assume "length (bitArray this) \<noteq> length (bitArray other)"
  then show "BloomFilter_merge this other = (Some SizeMismatch, this)"
    by (simp add: BloomFilter_merge_def)
next
  assume len: "length (bitArray this) = length (bitArray other)"
  from merge_ok_fields[OF len]
  show "fst (BloomFilter_merge this other) = None"
    "numHashFunctions (snd (BloomFilter_merge this other)) = numHashFunctions this"
    "bitArraySize (snd (BloomFilter_merge this other)) = bitArraySize this"
    "length (bitArray (snd (BloomFilter_merge this other))) = length (bitArray this)"
    by simp_all
  show "\<forall>i < length (bitArray this).
         bitArray (snd (BloomFilter_merge this other)) ! i \<longleftrightarrow>
           bitArray this ! i \<or> bitArray other ! i"
    using merge_nth[OF len] by blast
next
  assume h: "0 < m \<and> ka \<le> kb \<and> this = foldl BloomFilter_insert (new_BloomFilter m ka) xs \<and>
    other = foldl BloomFilter_insert (new_BloomFilter m kb) ys"
  then have wt: "wf_filter this" and wo: "wf_filter other" by simp_all
  from h have sz: "bitArraySize this = bitArraySize other" by (simp add: new_BloomFilter_def)
  from h have k: "numHashFunctions this \<le> numHashFunctions other"
    by (simp add: new_BloomFilter_def)
  from wt wo sz have len: "length (bitArray this) = length (bitArray other)"
    by (simp add: wf_filter_def)
  from merge_ok_fields[OF len] show "fst (BloomFilter_merge this other) = None" by simp
  show "\<forall>v \<in> set xs \<union> set ys. BloomFilter_exists (snd (BloomFilter_merge this other)) v"
  proof
    fix v assume "v \<in> set xs \<union> set ys"
    then consider "v \<in> set xs" | "v \<in> set ys" by blast
    then show "BloomFilter_exists (snd (BloomFilter_merge this other)) v"
    proof cases
      case 1
      with h have "BloomFilter_exists this v" by (simp add: exists_foldl_insert)
      with wt len show ?thesis by (simp add: merge_exists_left)
    next
      case 2
      with h have "BloomFilter_exists other v" by (simp add: exists_foldl_insert)
      with wt wo sz k show ?thesis by (simp add: merge_exists_right)
    qed
  qed
qed

theorem BloomFilter_merge_correct_witness:
  "BloomFilter_merge (new_BloomFilter 8 1) (new_BloomFilter 4 1)
     = (Some SizeMismatch, new_BloomFilter 8 1) \<and>
   fst (BloomFilter_merge (foldl BloomFilter_insert (new_BloomFilter 8 1) [''x''])
          (foldl BloomFilter_insert (new_BloomFilter 8 2) [''a''])) = None \<and>
   BloomFilter_exists
     (snd (BloomFilter_merge (foldl BloomFilter_insert (new_BloomFilter 8 1) [''x''])
          (foldl BloomFilter_insert (new_BloomFilter 8 2) [''a'']))) ''x'' \<and>
   BloomFilter_exists
     (snd (BloomFilter_merge (foldl BloomFilter_insert (new_BloomFilter 8 1) [''x''])
          (foldl BloomFilter_insert (new_BloomFilter 8 2) [''a'']))) ''a''"
  using BloomFilter_merge_correct[of "new_BloomFilter 8 1" "new_BloomFilter 4 1" 8 1 1 "[]" "[]"]
    BloomFilter_merge_correct[of "foldl BloomFilter_insert (new_BloomFilter 8 1) [''x'']"
      "foldl BloomFilter_insert (new_BloomFilter 8 2) [''a'']" 8 1 2 "[''x'']" "[''a'']"]
  by (simp add: new_BloomFilter_def)

section \<open>Sidecar files: writing and reading a filter\<close>

text \<open>
  The header fields are recovered from their little-endian bytes, and after the loop of
  \<^verbatim>\<open>saveToFile\<close> bit \<open>b\<close> of buffer byte \<open>j\<close> is bit \<open>8 * j + b\<close> of the bit array.
\<close>

lemma le_bytes_Suc: "le_bytes (Suc n) x = of_nat x # le_bytes n (x div 256)"
proof -
  have "[0..<Suc n] = 0 # map Suc [0..<n]"
    by (simp add: upt_conv_Cons map_Suc_upt del: upt_Suc)
  then show ?thesis
    by (simp add: le_bytes_def comp_def div_mult2_eq del: upt_Suc)
qed

lemma length_le_bytes [simp]: "length (le_bytes n x) = n"
  by (simp add: le_bytes_def)

lemma le_value_le_bytes: "le_value (le_bytes n x) = x mod 256 ^ n"
proof (induction n arbitrary: x)
  case 0
  then show ?case by (simp add: le_bytes_def)
next
  case (Suc n)
  have "unat (of_nat x :: byte) = x mod 256" by (simp add: unat_of_nat)
  with Suc[of "x div 256"] show ?case
    by (simp add: le_bytes_Suc mod_mult2_eq)
qed

lemma int32_of_roundtrip:
  "- (2 ^ 31) \<le> k \<Longrightarrow> k < 2 ^ 31 \<Longrightarrow> int32_of (nat (k mod 2 ^ 32) mod 2 ^ 32) = k"
proof -
  assume k: "- (2 ^ 31) \<le> k" "k < 2 ^ 31"
  show ?thesis
  proof (cases "0 \<le> k")
    case True
    with k have "k mod 2 ^ 32 = k" by simp
    with True k show ?thesis by (simp add: int32_of_def)
  next
    case False
    with k have "(k + 2 ^ 32) mod 2 ^ 32 = k + 2 ^ 32" by (intro mod_pos_pos_trivial) auto
    then have "k mod 2 ^ 32 = k + 2 ^ 32" by simp
    with False k show ?thesis by (simp add: int32_of_def)
  qed
qed

lemma fill_step_length:
  "length (fold (\<lambda>i buf. if bits ! i then buf[i div 8 := buf ! (i div 8) OR push_bit (i mod 8) 1]
                   else buf) ixs buffer) = length buffer"
  by (induction ixs arbitrary: buffer) auto

lemma length_fill_buffer [simp]: "length (fill_buffer bits m buffer) = length buffer"
  by (simp add: fill_buffer_def fill_step_length)

lemma bit_or_single: "b < 8 \<Longrightarrow> c < 8 \<Longrightarrow> bit ((w :: byte) OR 2 ^ c) b \<longleftrightarrow> bit w b \<or> b = c"
  by (auto simp: bit_or_iff bit_exp_iff)

lemma fill_buffer_bit:
  "n \<le> 8 * length buffer \<Longrightarrow> j < length buffer \<Longrightarrow> b < 8 \<Longrightarrow>
     bit (fill_buffer bits n buffer ! j) b \<longleftrightarrow>
       bit (buffer ! j) b \<or> (8 * j + b < n \<and> bits ! (8 * j + b))"
proof (induction n)
  case 0
  then show ?case by (simp add: fill_buffer_def)
next
  case (Suc n)
  let ?prev = "fill_buffer bits n buffer"
  from Suc.prems have IH: "bit (?prev ! j) b \<longleftrightarrow>
       bit (buffer ! j) b \<or> (8 * j + b < n \<and> bits ! (8 * j + b))"
    by (intro Suc.IH) auto
  have step: "fill_buffer bits (Suc n) buffer =
      (if bits ! n then ?prev[n div 8 := ?prev ! (n div 8) OR push_bit (n mod 8) 1] else ?prev)"
    by (simp add: fill_buffer_def)
  from Suc.prems have nd: "n div 8 < length ?prev" by simp
  have eq: "8 * j + b = n \<longleftrightarrow> j = n div 8 \<and> b = n mod 8" using \<open>b < 8\<close> by auto
  show ?case
  proof (cases "bits ! n")
    case False
    with IH step eq show ?thesis by (auto simp: less_Suc_eq)
  next
    case True
    show ?thesis
    proof (cases "j = n div 8")
      case j: True
      have "bit (fill_buffer bits (Suc n) buffer ! j) b \<longleftrightarrow> bit (?prev ! j) b \<or> b = n mod 8"
        using True j nd \<open>b < 8\<close> by (simp add: step bit_or_single)
      with IH eq j True show ?thesis by (auto simp: less_Suc_eq)
    next
      case j: False
      have "fill_buffer bits (Suc n) buffer ! j = ?prev ! j"
        using True j by (simp add: step)
      with IH eq j show ?thesis by (auto simp: less_Suc_eq)
    qed
  qed
qed

lemma payload_bit:
  assumes "i < m" "m \<le> 8 * L"
  shows "bit (fill_buffer bits m (replicate L 0) ! (i div 8)) (i mod 8) \<longleftrightarrow> bits ! i"
proof -
  from assms have j: "i div 8 < length (replicate L (0::byte))" by auto
  have "8 * (i div 8) + i mod 8 = i" by simp
  with fill_buffer_bit[OF _ j, of m "i mod 8" bits] assms show ?thesis by simp
qed

lemma byteSize_of_bound: "m + 7 < 2 ^ 64 \<Longrightarrow> byteSize_of m = (m + 7) div 8"
  by (simp add: byteSize_of_def)

lemma byteSize_of_covers: "m + 7 < 2 ^ 64 \<Longrightarrow> m \<le> 8 * byteSize_of m"
  by (simp add: byteSize_of_bound)

lemma stream_read_exact: "length input = length buffer \<Longrightarrow> stream_read buffer input = input"
  by (simp add: stream_read_def)

lemma length_stream_read [simp]: "length (stream_read buffer input) = length buffer"
  by (simp add: stream_read_def)

lemma serialize_parts:
  "take 8 (serialize bf) = le_bytes 8 (bitArraySize bf)"
  "take 4 (drop 8 (serialize bf)) = le_bytes 4 (nat (numHashFunctions bf mod 2 ^ 32))"
  "drop 12 (serialize bf) =
     fill_buffer (bitArray bf) (bitArraySize bf) (replicate (byteSize_of (bitArraySize bf)) 0)"
  "length (serialize bf) = 12 + byteSize_of (bitArraySize bf)"
  by (simp_all add: serialize_def)

lemma load_serialize:
  assumes r: "representable bf" and fs: "fs path = Contents (serialize bf)"
  shows "BloomFilter_loadFromFile path fs = Inr bf"
proof -
  let ?m = "bitArraySize bf"
  from r have m: "?m + 7 < 2 ^ 64" and len: "length (bitArray bf) = ?m"
    and k: "- (2 ^ 31) \<le> numHashFunctions bf" "numHashFunctions bf < 2 ^ 31"
    by (simp_all add: representable_def)
  from m have m64: "?m mod 256 ^ 8 = ?m" by simp
  have k32: "int32_of (nat (numHashFunctions bf mod 2 ^ 32) mod 256 ^ 4) = numHashFunctions bf"
    using int32_of_roundtrip[OF k] by simp
  let ?payload = "fill_buffer (bitArray bf) ?m (replicate (byteSize_of ?m) 0)"
  have rd: "stream_read (replicate (byteSize_of ?m) 0) ?payload = ?payload"
    by (simp add: stream_read_exact)
  have bits: "map (\<lambda>i. ?payload ! (i div 8) AND push_bit (i mod 8) 1 \<noteq> 0) [0..<?m] = bitArray bf"
  proof (rule nth_equalityI)
    show "length (map (\<lambda>i. ?payload ! (i div 8) AND push_bit (i mod 8) 1 \<noteq> 0) [0..<?m])
            = length (bitArray bf)" using len by simp
  next
    fix i assume "i < length (map (\<lambda>i. ?payload ! (i div 8) AND push_bit (i mod 8) 1 \<noteq> 0) [0..<?m])"
    then have i: "i < ?m" by simp
    from payload_bit[OF i byteSize_of_covers[OF m], of "bitArray bf"]
    have "(?payload ! (i div 8) AND push_bit (i mod 8) 1 \<noteq> 0) = bitArray bf ! i"
      by (simp add: bit_iff_and_push_bit_not_eq_0)
    with i show "map (\<lambda>i. ?payload ! (i div 8) AND push_bit (i mod 8) 1 \<noteq> 0) [0..<?m] ! i
                  = bitArray bf ! i" by simp
  qed
  show ?thesis
    unfolding BloomFilter_loadFromFile_def fs
    using bits m
    by (simp add: serialize_parts le_value_le_bytes m64[simplified] k32[simplified] rd Let_def
          del: le_value.simps)
qed

lemma stream_read_pad:
  "stream_read (replicate L 0) input = take L (input @ replicate L 0)"
  by (simp add: stream_read_def min_def)

lemma stream_read_idem:
  "stream_read (replicate L 0) (take L (input @ replicate L 0)) = stream_read (replicate L 0) input"
proof -
  have "length (take L (input @ replicate L 0)) = length (replicate L (0::byte))" by simp
  then have "stream_read (replicate L 0) (take L (input @ replicate L 0))
               = take L (input @ replicate L 0)" by (rule stream_read_exact)
  then show ?thesis by (simp only: stream_read_pad)
qed

subsection \<open>Claim C7: round trip\<close>

text \<open>
  Claim C7: for every bloom filter, saving it to a file and loading that file yields a
  filter with the same \<open>m\<close>, the same \<open>k\<close> and the same bit at every index; the file
  holds \<open>m\<close> in 8 bytes, then \<open>k\<close> in 4 bytes, then \<open>\<lceil>m / 8\<rceil>\<close> payload bytes with bit
  \<open>i\<close> in byte \<open>\<lfloor>i / 8\<rfloor>\<close> at position \<open>i mod 8\<close>. A bloom filter is one whose fields fit
  their C++ types and whose bit array has the declared length (\<open>representable\<close>); saving
  succeeds when the path can be opened.
\<close>

theorem save_load_roundtrip:
  assumes "representable bf" and "fs path \<noteq> Unopenable"
  shows "BloomFilter_saveToFile bf path fs = Inr (fs(path := Contents (serialize bf))) \<and>
         BloomFilter_loadFromFile path (fs(path := Contents (serialize bf))) = Inr bf \<and>
         length (serialize bf) = 12 + (bitArraySize bf + 7) div 8 \<and>
         le_value (take 8 (serialize bf)) = bitArraySize bf \<and>
         int32_of (le_value (take 4 (drop 8 (serialize bf)))) = numHashFunctions bf \<and>
         (\<forall>i < bitArraySize bf.
            bit (serialize bf ! (12 + i div 8)) (i mod 8) \<longleftrightarrow> bitArray bf ! i)"
proof (intro conjI allI impI)
  from assms(2) show "BloomFilter_saveToFile bf path fs = Inr (fs(path := Contents (serialize bf)))"
    by (simp add: BloomFilter_saveToFile_def)
  show "BloomFilter_loadFromFile path (fs(path := Contents (serialize bf))) = Inr bf"
    by (rule load_serialize[OF assms(1)]) simp
  from assms(1) have m: "bitArraySize bf + 7 < 2 ^ 64"
    and k: "- (2 ^ 31) \<le> numHashFunctions bf" "numHashFunctions bf < 2 ^ 31"
    by (simp_all add: representable_def)
  from m show "length (serialize bf) = 12 + (bitArraySize bf + 7) div 8"
    by (simp add: serialize_parts byteSize_of_bound)
  from m have "bitArraySize bf mod 256 ^ 8 = bitArraySize bf" by simp
  then show "le_value (take 8 (serialize bf)) = bitArraySize bf"
    by (simp only: serialize_parts le_value_le_bytes)
  from int32_of_roundtrip[OF k]
  show "int32_of (le_value (take 4 (drop 8 (serialize bf)))) = numHashFunctions bf"
    by (simp only: serialize_parts le_value_le_bytes) simp
  fix i assume i: "i < bitArraySize bf"
  have "serialize bf ! (12 + i div 8) = drop 12 (serialize bf) ! (i div 8)"
    by (simp add: serialize_parts(4))
  with payload_bit[OF i byteSize_of_covers[OF m], of "bitArray bf"]
  show "bit (serialize bf ! (12 + i div 8)) (i mod 8) \<longleftrightarrow> bitArray bf ! i"
    by (simp add: serialize_parts(3))
qed

theorem save_load_roundtrip_witness:
  "representable \<lparr>bitArray = [True, False, True], numHashFunctions = 2, bitArraySize = 3\<rparr> \<and>
   no_files ''f'' \<noteq> Unopenable \<and>
   BloomFilter_loadFromFile ''f''
     (no_files(''f'' := Contents
        (serialize \<lparr>bitArray = [True, False, True], numHashFunctions = 2, bitArraySize = 3\<rparr>)))
     = Inr \<lparr>bitArray = [True, False, True], numHashFunctions = 2, bitArraySize = 3\<rparr>"
proof -
  have h1: "representable \<lparr>bitArray = [True, False, True], numHashFunctions = 2, bitArraySize = 3\<rparr>"
    by (simp add: representable_def)
  have h2: "no_files ''f'' \<noteq> Unopenable" by (simp add: no_files_def)
  from save_load_roundtrip[of _ no_files "''f''", OF h1 h2] h1 h2 show ?thesis by simp
qed

subsection \<open>Claim C9: payload length\<close>



lemma load_refuses_wrapping_size:
  assumes "fs path = Contents (header @ payload)" and "length header = 12"
    and "2 ^ 64 \<le> le_value (take 8 header) + 7"
  shows "BloomFilter_loadFromFile path fs = Inl LengthError"
  using assms by (simp add: BloomFilter_loadFromFile_def Let_def del: le_value.simps)




section \<open>The per-file partitioner\<close>

text \<open>
  The loop of \<^verbatim>\<open>processSSTFile\<close> keeps the open partition in its local variables; when the
  count reaches the leaf size it emits the leaf of the open partition and starts afresh.
\<close>

lemma partition_step_emit:
  assumes "pending bsz k st ps p" and "partitionSize \<le> Suc (length p)"
  shows "pending bsz k (partition_step sstFile partitionSize bsz k st x)
           (ps @ [leaf_of_run sstFile bsz k (p @ [x])]) []"
  using assms
  by (cases "p = []") (auto simp: pending_def partition_step_def Let_def leaf_of_run_def)

lemma partition_step_keep:
  assumes "pending bsz k st ps p" and "Suc (length p) < partitionSize"
  shows "pending bsz k (partition_step sstFile partitionSize bsz k st x) ps (p @ [x])"
  using assms
  by (cases "p = []") (auto simp: pending_def partition_step_def Let_def)

lemma runs_of_short: "0 < N \<Longrightarrow> length p \<le> N \<Longrightarrow> runs_of N p = (if p = [] then [] else [p])"
  by (simp add: runs_of.simps[of N p] runs_of.simps[of N "[]"])

lemma runs_of_full: "0 < N \<Longrightarrow> length p = N \<Longrightarrow> runs_of N (p @ xs) = p # runs_of N xs"
  by (subst runs_of.simps) auto

lemma partition_loop:
  assumes "pending bsz k st ps p" and "length p < max 1 partitionSize"
  shows "flush sstFile (foldl (partition_step sstFile partitionSize bsz k) st xs) =
           ps @ map (leaf_of_run sstFile bsz k) (runs_of (max 1 partitionSize) (p @ xs))"
  using assms
proof (induction xs arbitrary: st ps p)
  case Nil
  then show ?case
    by (auto simp: runs_of_short flush_def pending_def leaf_of_run_def)
next
  case (Cons x xs)
  show ?case
  proof (cases "partitionSize \<le> Suc (length p)")
    case True
    with Cons.prems(2) have len: "length (p @ [x]) = max 1 partitionSize" by auto
    from partition_step_emit[OF Cons.prems(1) True]
    have "pending bsz k (partition_step sstFile partitionSize bsz k st x)
           (ps @ [leaf_of_run sstFile bsz k (p @ [x])]) []" .
    from Cons.IH[OF this] have
      "flush sstFile (foldl (partition_step sstFile partitionSize bsz k) st (x # xs)) =
         (ps @ [leaf_of_run sstFile bsz k (p @ [x])]) @
         map (leaf_of_run sstFile bsz k) (runs_of (max 1 partitionSize) xs)" by simp
    moreover have "runs_of (max 1 partitionSize) ((p @ [x]) @ xs)
                     = (p @ [x]) # runs_of (max 1 partitionSize) xs"
      using len by (intro runs_of_full) auto
    ultimately show ?thesis by simp
  next
    case False
    then have lt: "Suc (length p) < partitionSize" by simp
    from partition_step_keep[OF Cons.prems(1) lt]
    have "pending bsz k (partition_step sstFile partitionSize bsz k st x) ps (p @ [x])" .
    from Cons.IH[OF this] lt show ?thesis by simp
  qed
qed

lemma processSSTFile_runs:
  assumes "db sstFile = Some records"
  shows "processSSTFile db sstFile partitionSize bsz k =
           map (leaf_of_run sstFile bsz k) (runs_of (max 1 partitionSize) records)"
proof -
  have "pending bsz k \<lparr>partitions = [], currentCount = 0,
                       partitionBloom = new_BloomFilter bsz k,
                       partitionStartKey = [], firstEntry = True, lastKey = []\<rparr> [] []"
    by (simp add: pending_def)
  from partition_loop[OF this, of partitionSize sstFile records] assms
  show ?thesis by (simp add: processSSTFile_def flush_def Let_def)
qed

lemma concat_runs_of: "0 < N \<Longrightarrow> concat (runs_of N xs) = xs"
proof (induction N xs rule: runs_of.induct)
  case (1 N xs)
  then show ?case by (subst runs_of.simps) auto
qed

lemma runs_of_lengths:
  "0 < N \<Longrightarrow> r \<in> set (runs_of N xs) \<Longrightarrow> r \<noteq> [] \<and> length r \<le> N"
proof (induction N xs rule: runs_of.induct)
  case (1 N xs)
  show ?case
  proof (cases "xs = []")
    case True
    with "1.prems" show ?thesis by (simp add: runs_of.simps[of N "[]"])
  next
    case False
    with "1.prems"(1) have "runs_of N xs = take N xs # runs_of N (drop N xs)"
      by (subst runs_of.simps) simp
    with "1.prems" False "1.IH" show ?thesis by auto
  qed
qed

lemma runs_of_butlast:
  "0 < N \<Longrightarrow> r \<in> set (butlast (runs_of N xs)) \<Longrightarrow> length r = N"
proof (induction N xs rule: runs_of.induct)
  case (1 N xs)
  show ?case
  proof (cases "xs = []")
    case True
    with "1.prems" show ?thesis by (simp add: runs_of.simps[of N "[]"])
  next
    case False
    with "1.prems"(1) have eq: "runs_of N xs = take N xs # runs_of N (drop N xs)"
      by (subst runs_of.simps) simp
    show ?thesis
    proof (cases "runs_of N (drop N xs) = []")
      case True
      with eq "1.prems" show ?thesis by simp
    next
      case ne: False
      then have "drop N xs \<noteq> []" by (auto simp: runs_of.simps[of N "[]"])
      then have "length (take N xs) = N" by auto
      with eq ne "1.prems" "1.IH" False show ?thesis by auto
    qed
  qed
qed

subsection \<open>Claim C4: leaves of a file\<close>

text \<open>
  Claim C4, as stated: for every sorted file and every target leaf size \<open>N\<close> the
  partitioner emits a leaf exactly when \<open>N\<close> records have accumulated, and one more at the
  end for a non-empty rest; a leaf's range is the first and the last key of its run, and the
  record counts of the leaves add up to the record count of the file.

  For \<open>N = 0\<close> this fails: the test \<^verbatim>\<open>currentCount >= partitionSize\<close> comes after the
  record is counted, so every leaf holds one record, not \<open>N\<close>.
\<close>

theorem partition_size_zero_counterexample:
  "map startKey (processSSTFile (no_ssts(''f'' := Some [(''k1'', ''v1''), (''k2'', ''v2'')]))
                   ''f'' 0 8 1) = [''k1'', ''k2''] \<and>
   map endKey (processSSTFile (no_ssts(''f'' := Some [(''k1'', ''v1''), (''k2'', ''v2'')]))
                   ''f'' 0 8 1) = [''k1'', ''k2'']"
  by (simp add: processSSTFile_def partition_step_def Let_def)

text \<open>
  Claim C4, amended: for every file that opens, every leaf size \<open>N \<ge> 1\<close> and every filter
  on which insertion is defined (a size above zero, or no hash at all) the leaves are
  the leaves of the runs of \<open>N\<close> records and of the shorter non-empty rest, in order: the
  runs concatenate to the file, no run is empty or longer than \<open>N\<close>, every run but the last
  has exactly \<open>N\<close> records, each leaf carries the file as source tag, the first and the last
  key of its run as range and the filter of the run's values, and the lengths of the runs
  add up to the number of records. With \<open>N = 0\<close> the partitioner does what it does with
  \<open>N = 1\<close>.
\<close>

theorem processSSTFile_partitions:
  assumes "db sstFile = Some records" and "0 < partitionSize" and "0 < bsz \<or> k \<le> 0"
  shows "processSSTFile db sstFile partitionSize bsz k =
           map (leaf_of_run sstFile bsz k) (runs_of partitionSize records) \<and>
         concat (runs_of partitionSize records) = records \<and>
         (\<forall>run \<in> set (runs_of partitionSize records). run \<noteq> [] \<and> length run \<le> partitionSize) \<and>
         (\<forall>run \<in> set (butlast (runs_of partitionSize records)). length run = partitionSize) \<and>
         (\<forall>run. filename (leaf_of_run sstFile bsz k run) = sstFile \<and>
                startKey (leaf_of_run sstFile bsz k run) = fst (hd run) \<and>
                endKey (leaf_of_run sstFile bsz k run) = fst (last run) \<and>
                bloom (leaf_of_run sstFile bsz k run) =
                  foldl BloomFilter_insert (new_BloomFilter bsz k) (map snd run)) \<and>
         sum_list (map length (runs_of partitionSize records)) = length records \<and>
         processSSTFile db sstFile 0 bsz k = processSSTFile db sstFile 1 bsz k"
proof -
  from assms(2) have m: "max 1 partitionSize = partitionSize" by simp
  from processSSTFile_runs[of db sstFile records partitionSize bsz k, OF assms(1)] m
  have f1: "processSSTFile db sstFile partitionSize bsz k =
           map (leaf_of_run sstFile bsz k) (runs_of partitionSize records)" by simp
  from assms(2) have f2: "concat (runs_of partitionSize records) = records"
    by (rule concat_runs_of)
  have "length (concat (runs_of partitionSize records)) = length records" by (simp only: f2)
  then have f3: "sum_list (map length (runs_of partitionSize records)) = length records"
    by (simp add: length_concat)
  have f4: "processSSTFile db sstFile 0 bsz k = processSSTFile db sstFile 1 bsz k"
    by (simp add: processSSTFile_runs[of db sstFile records, OF assms(1)])
  from assms(2) have f5:
    "\<forall>run \<in> set (runs_of partitionSize records). run \<noteq> [] \<and> length run \<le> partitionSize"
    by (blast dest: runs_of_lengths)
  from assms(2) have f6:
    "\<forall>run \<in> set (butlast (runs_of partitionSize records)). length run = partitionSize"
    by (blast dest: runs_of_butlast)
  have f7: "\<forall>run. filename (leaf_of_run sstFile bsz k run) = sstFile \<and>
                startKey (leaf_of_run sstFile bsz k run) = fst (hd run) \<and>
                endKey (leaf_of_run sstFile bsz k run) = fst (last run) \<and>
                bloom (leaf_of_run sstFile bsz k run) =
                  foldl BloomFilter_insert (new_BloomFilter bsz k) (map snd run)"
    by (simp add: leaf_of_run_def)
  from f1 f2 f3 f4 f5 f6 f7 show ?thesis by (intro conjI)
qed

theorem processSSTFile_partitions_witness:
  "(no_ssts(''f'' := Some [(''k1'', ''v1''), (''k2'', ''v2''), (''k3'', ''v3'')])) ''f''
      = Some [(''k1'', ''v1''), (''k2'', ''v2''), (''k3'', ''v3'')] \<and> (0::nat) < 2 \<and>
   ((0::nat) < 8 \<or> (1::int) \<le> 0) \<and>
   map startKey (processSSTFile
      (no_ssts(''f'' := Some [(''k1'', ''v1''), (''k2'', ''v2''), (''k3'', ''v3'')])) ''f'' 2 8 1)
     = [''k1'', ''k3''] \<and>
   map endKey (processSSTFile
      (no_ssts(''f'' := Some [(''k1'', ''v1''), (''k2'', ''v2''), (''k3'', ''v3'')])) ''f'' 2 8 1)
     = [''k2'', ''k3'']"
proof -
  have h1: "(no_ssts(''f'' := Some [(''k1'', ''v1''), (''k2'', ''v2''), (''k3'', ''v3'')])) ''f''
      = Some [(''k1'', ''v1''), (''k2'', ''v2''), (''k3'', ''v3'')]" by simp
  have h2: "(0::nat) < 2" by simp
  have h3: "(0::nat) < 8 \<or> (1::int) \<le> 0" by simp
  from processSSTFile_partitions[of "no_ssts(''f'' := Some [(''k1'', ''v1''), (''k2'', ''v2''), (''k3'', ''v3'')])"
      "''f''" "[(''k1'', ''v1''), (''k2'', ''v2''), (''k3'', ''v3'')]" 2 8 1, OF h1 h2 h3] h1
  show ?thesis
    by (simp add: runs_of.simps leaf_of_run_def)
qed

section \<open>Level-by-level composition\<close>

text \<open>
  When every filter of the level has the tree's length, each group gets its parent and the
  outer loop of \<^verbatim>\<open>buildLevel\<close> with a positive ratio that does not wrap around yields the
  parents of the runs of \<open>ratio\<close> nodes.
\<close>

lemma adopt_all_ok:
  "\<forall>c \<in> set cs. length (bitArray (bloom c)) = length (bitArray bl) \<Longrightarrow>
     adopt_all (Node ch bl fn sk ek) cs =
       Inr (Node (ch @ cs)
              (foldl (\<lambda>b c. snd (BloomFilter_merge b (bloom c))) bl cs) fn
              (foldl (\<lambda>s c. if s > startKey c then startKey c else s) sk cs)
              (foldl (\<lambda>e c. if e < endKey c then endKey c else e) ek cs))"
proof (induction cs arbitrary: ch bl sk ek)
  case Nil
  then show ?case by simp
next
  case (Cons c cs)
  from Cons.prems have len: "length (bitArray bl) = length (bitArray (bloom c))" by simp
  from merge_ok_fields[OF len] obtain bl' where
    m: "BloomFilter_merge bl (bloom c) = (None, bl')" "length (bitArray bl') = length (bitArray bl)"
    by (cases "BloomFilter_merge bl (bloom c)") auto
  from Cons.prems m(2) have "\<forall>c \<in> set cs. length (bitArray (bloom c)) = length (bitArray bl')"
    by simp
  from Cons.IH[OF this] m(1) show ?case by (simp add: Let_def)
qed

lemma adopt_all_mismatch:
  "\<exists>c \<in> set cs. length (bitArray (bloom c)) \<noteq> length (bitArray bl) \<Longrightarrow>
     adopt_all (Node ch bl fn sk ek) cs = Inl SizeMismatch"
proof (induction cs arbitrary: ch bl sk ek)
  case Nil
  then show ?case by simp
next
  case (Cons c cs)
  show ?case
  proof (cases "length (bitArray bl) = length (bitArray (bloom c))")
    case False
    then show ?thesis by (simp add: BloomFilter_merge_def Let_def)
  next
    case True
    from merge_ok_fields[OF True] obtain bl' where
      m: "BloomFilter_merge bl (bloom c) = (None, bl')" "length (bitArray bl') = length (bitArray bl)"
      by (cases "BloomFilter_merge bl (bloom c)") auto
    from Cons.prems True m(2)
    have "\<exists>c \<in> set cs. length (bitArray (bloom c)) \<noteq> length (bitArray bl')" by auto
    from Cons.IH[OF this] m(1) show ?thesis by (simp add: Let_def)
  qed
qed

lemma make_parent_run:
  assumes "i < length nds" and "i < e" and "e \<le> length nds" and "level_ok bsz nds"
  shows "make_parent bsz k nds i e = Inr (parent_node bsz k (take (e - i) (drop i nds)))"
proof -
  let ?run = "take (e - i) (drop i nds)"
  from assms have ne: "?run \<noteq> []" by simp
  from assms have hd: "hd ?run = nds ! i" by (simp add: hd_drop_conv_nth)
  from assms have len: "length ?run = e - i" by simp
  from ne have "last ?run = ?run ! (length ?run - 1)" by (rule last_conv_nth)
  also have "\<dots> = ?run ! (e - i - 1)" by (simp only: len)
  also from assms have "\<dots> = nds ! (i + (e - i - 1))" by simp
  also from assms have "i + (e - i - 1) = e - 1" by simp
  finally have last: "last ?run = nds ! (e - 1)" .
  have "\<forall>c \<in> set ?run. length (bitArray (bloom c)) = length (bitArray (new_BloomFilter bsz k))"
    using assms(4) by (auto simp: level_ok_def new_BloomFilter_def dest!: in_set_takeD in_set_dropD)
  from adopt_all_ok[OF this] assms show ?thesis
    by (simp add: make_parent_def parent_node_def hd last)
qed

lemma size_t_add_nowrap:
  "0 \<le> r \<Longrightarrow> i + nat r < 2 ^ 64 \<Longrightarrow> size_t_add i r = i + nat r"
proof -
  assume r: "0 \<le> r" "i + nat r < 2 ^ 64"
  then have "nat r < 2 ^ 64" by simp
  with r(1) have "r < 2 ^ 64" by (simp add: nat_less_iff)
  with r have "r mod 2 ^ 64 = r" by simp
  with r show ?thesis by (simp add: size_t_add_def)
qed

lemma group_level_runs:
  assumes r: "1 \<le> r" and nw: "length nds + nat r < 2 ^ 64" and ok: "level_ok bsz nds"
  shows "i \<le> length nds \<Longrightarrow>
         group_level r bsz k nds i acc =
           Some (Inr (acc @ map (parent_node bsz k) (runs_of (nat r) (drop i nds))))"
proof (induction "length nds - i" arbitrary: i acc rule: less_induct)
  case less
  show ?case
  proof (cases "i < length nds")
    case False
    with less.prems show ?thesis
      by (subst group_level.simps) (simp add: runs_of.simps[of _ "[]"])
  next
    case True
    from r nw True have add: "size_t_add i r = i + nat r"
      by (intro size_t_add_nowrap) auto
    let ?e = "min (i + nat r) (length nds)"
    from r True have e: "i < ?e" "?e \<le> length nds" by auto
    from make_parent_run[OF True e ok]
    have mp: "make_parent bsz k nds i ?e = Inr (parent_node bsz k (take (?e - i) (drop i nds)))" .
    have tk: "take (?e - i) (drop i nds) = take (nat r) (drop i nds)"
      by (auto simp: min_def)
    have IH: "group_level r bsz k nds ?e (acc @ [parent_node bsz k (take (nat r) (drop i nds))])
        = Some (Inr ((acc @ [parent_node bsz k (take (nat r) (drop i nds))]) @
             map (parent_node bsz k) (runs_of (nat r) (drop ?e nds))))"
      using r True by (intro less.hyps) auto
    have rec: "group_level r bsz k nds (i + nat r) (acc @ [parent_node bsz k (take (nat r) (drop i nds))])
        = Some (Inr ((acc @ [parent_node bsz k (take (nat r) (drop i nds))]) @
             map (parent_node bsz k) (runs_of (nat r) (drop (i + nat r) nds))))"
    proof (cases "i + nat r \<le> length nds")
      case True
      then have "?e = i + nat r" by simp
      with IH show ?thesis by simp
    next
      case False
      then show ?thesis
        by (subst group_level.simps) (simp add: runs_of.simps[of _ "[]"])
    qed
    from r True have ro: "runs_of (nat r) (drop i nds) =
        take (nat r) (drop i nds) # runs_of (nat r) (drop (i + nat r) nds)"
      by (subst runs_of.simps) (simp add: add.commute)
    show ?thesis
      by (subst group_level.simps) (simp add: True add mp tk rec ro)
  qed
qed

lemma runs_of_nonempty: "0 < N \<Longrightarrow> xs \<noteq> [] \<Longrightarrow> runs_of N xs \<noteq> []"
  by (subst runs_of.simps) simp

lemma runs_of_half: "2 \<le> N \<Longrightarrow> 2 * length (runs_of N xs) \<le> length xs + 1"
proof (induction N xs rule: runs_of.induct)
  case (1 N xs)
  show ?case
  proof (cases "xs = []")
    case True
    then show ?thesis by (simp add: runs_of.simps[of N "[]"])
  next
    case False
    with "1.prems" have eq: "runs_of N xs = take N xs # runs_of N (drop N xs)"
      by (subst runs_of.simps) simp
    from "1.IH" False "1.prems"
    have IH: "2 * length (runs_of N (drop N xs)) \<le> length (drop N xs) + 1" by simp
    show ?thesis
    proof (cases "N \<le> length xs")
      case True
      with IH "1.prems" eq show ?thesis by simp
    next
      case False
      then have "drop N xs = []" by simp
      with eq \<open>xs \<noteq> []\<close> show ?thesis
        by (cases xs) (simp_all add: runs_of.simps[of N "[]"])
    qed
  qed
qed

lemma runs_of_shrinks: "2 \<le> N \<Longrightarrow> 2 \<le> length xs \<Longrightarrow> length (runs_of N xs) < length xs"
  using runs_of_half[of N xs] by simp

lemma runs_of_subset: "0 < N \<Longrightarrow> run \<in> set (runs_of N xs) \<Longrightarrow> set run \<subseteq> set xs"
  using concat_runs_of[of N xs] by (metis UN_I set_concat subsetI)

lemma merge_foldl_shape:
  "\<forall>c \<in> set cs. length (bitArray (bloom c)) = length (bitArray b) \<Longrightarrow>
     length (bitArray (foldl (\<lambda>b c. snd (BloomFilter_merge b (bloom c))) b cs)) = length (bitArray b) \<and>
     bitArraySize (foldl (\<lambda>b c. snd (BloomFilter_merge b (bloom c))) b cs) = bitArraySize b \<and>
     numHashFunctions (foldl (\<lambda>b c. snd (BloomFilter_merge b (bloom c))) b cs) = numHashFunctions b \<and>
     (\<forall>i < length (bitArray b).
        bitArray (foldl (\<lambda>b c. snd (BloomFilter_merge b (bloom c))) b cs) ! i \<longleftrightarrow>
          bitArray b ! i \<or> (\<exists>c \<in> set cs. bitArray (bloom c) ! i))"
proof (induction cs arbitrary: b)
  case Nil
  then show ?case by simp
next
  case (Cons c cs)
  let ?b' = "snd (BloomFilter_merge b (bloom c))"
  from Cons.prems have len: "length (bitArray b) = length (bitArray (bloom c))" by simp
  note f = merge_ok_fields[OF len]
  from Cons.prems f have "\<forall>c \<in> set cs. length (bitArray (bloom c)) = length (bitArray ?b')"
    by simp
  from Cons.IH[OF this] f merge_nth[OF len] show ?case by auto
qed

lemma foldl_min_key:
  "foldl (\<lambda>s c. if s > startKey c then startKey c else s) s0 cs = Min (insert s0 (startKey ` set cs))"
proof (induction cs arbitrary: s0)
  case Nil
  then show ?case by simp
next
  case (Cons c cs)
  have "(if s0 > startKey c then startKey c else s0) = min s0 (startKey c)" by (auto simp: min_def)
  then have "foldl (\<lambda>s c. if s > startKey c then startKey c else s) s0 (c # cs)
      = Min (insert (min s0 (startKey c)) (startKey ` set cs))" by (simp add: Cons.IH)
  also have "\<dots> = Min (insert s0 (insert (startKey c) (startKey ` set cs)))"
    by (cases "cs = []") (simp_all add: min.assoc)
  finally show ?case by simp
qed

lemma foldl_max_key:
  "foldl (\<lambda>e c. if e < endKey c then endKey c else e) e0 cs = Max (insert e0 (endKey ` set cs))"
proof (induction cs arbitrary: e0)
  case Nil
  then show ?case by simp
next
  case (Cons c cs)
  have "(if e0 < endKey c then endKey c else e0) = max e0 (endKey c)" by (auto simp: max_def)
  then have "foldl (\<lambda>e c. if e < endKey c then endKey c else e) e0 (c # cs)
      = Max (insert (max e0 (endKey c)) (endKey ` set cs))" by (simp add: Cons.IH)
  also have "\<dots> = Max (insert e0 (insert (endKey c) (endKey ` set cs)))"
    by (cases "cs = []") (simp_all add: max.assoc)
  finally show ?case by simp
qed

lemma parent_node_summarises:
  assumes "run \<noteq> []" and "level_ok bsz run"
  shows "summarises bsz k (parent_node bsz k run)" and "children (parent_node bsz k run) = run"
proof -
  have sh: "\<forall>c \<in> set run. length (bitArray (bloom c)) = length (bitArray (new_BloomFilter bsz k))"
    using assms(2) by (simp add: level_ok_def new_BloomFilter_def)
  note f = merge_foldl_shape[OF sh]
  from assms(1) have s: "insert (startKey (hd run)) (startKey ` set run) = startKey ` set run"
    and e: "insert (endKey (last run)) (endKey ` set run) = endKey ` set run"
    by auto
  show "children (parent_node bsz k run) = run" by (simp add: parent_node_def)
  from f show "summarises bsz k (parent_node bsz k run)"
    by (simp add: summarises_def parent_node_def foldl_min_key foldl_max_key s e
          new_BloomFilter_def)
qed

lemma level_ok_parents:
  assumes "0 < N" and "level_ok bsz nds"
  shows "level_ok bsz (map (parent_node bsz k) (runs_of N nds))"
proof -
  { fix run assume run: "run \<in> set (runs_of N nds)"
    with assms(1) have "run \<noteq> []" "set run \<subseteq> set nds"
      by (auto dest: runs_of_lengths runs_of_subset)
    with assms(2) have "level_ok bsz run" by (auto simp: level_ok_def)
    from parent_node_summarises(1)[OF \<open>run \<noteq> []\<close> this]
    have "length (bitArray (bloom (parent_node bsz k run))) = bsz" by (simp add: summarises_def) }
  then show ?thesis by (auto simp: level_ok_def)
qed

lemma buildLevel_total:
  assumes r: "2 \<le> r"
  shows "nds \<noteq> [] \<Longrightarrow> length nds + nat r < 2 ^ 64 \<Longrightarrow> level_ok bsz nds \<Longrightarrow>
         \<forall>c \<in> set nds. built r bsz k L c \<Longrightarrow>
           \<exists>root. buildLevel r bsz k nds = Some (Inr root) \<and> built r bsz k L root"
proof (induction "length nds" arbitrary: nds rule: less_induct)
  case less
  show ?case
  proof (cases "length nds = 1")
    case True
    then obtain n where "nds = [n]" by (cases nds) auto
    with less.prems show ?thesis by (subst buildLevel.simps) simp
  next
    case False
    with less.prems(1) have two: "2 \<le> length nds" by (cases nds) (auto simp: Suc_le_eq)
    let ?ps = "map (parent_node bsz k) (runs_of (nat r) nds)"
    from r have r1: "1 \<le> r" and N: "0 < nat r" "2 \<le> nat r" by auto
    from group_level_runs[OF r1 less.prems(2,3), of 0 k "[]"]
    have gl: "group_level r bsz k nds 0 [] = Some (Inr ?ps)" by simp
    from runs_of_shrinks[OF N(2) two] have shorter: "length ?ps < length nds" by simp
    from runs_of_nonempty[OF N(1) less.prems(1)] have ne: "?ps \<noteq> []" by simp
    have ok: "level_ok bsz ?ps" by (rule level_ok_parents[OF N(1) less.prems(3)])
    have bl: "\<forall>c \<in> set ?ps. built r bsz k L c"
    proof
      fix c assume "c \<in> set ?ps"
      then obtain run where run: "run \<in> set (runs_of (nat r) nds)" "c = parent_node bsz k run"
        by auto
      from runs_of_lengths[OF N(1) run(1)] have l: "run \<noteq> []" "length run \<le> nat r" by auto
      from runs_of_subset[OF N(1) run(1)] have sub: "set run \<subseteq> set nds" .
      with less.prems(3,4) have "level_ok bsz run" "\<forall>c \<in> set run. built r bsz k L c"
        by (auto simp: level_ok_def)
      with l run(2) show "built r bsz k L c" by (auto intro: built_parent)
    qed
    from shorter less.prems(2) have "length ?ps + nat r < 2 ^ 64" by simp
    from less.hyps[OF shorter ne this ok bl]
    obtain root where "buildLevel r bsz k ?ps = Some (Inr root)" "built r bsz k L root" by auto
    with False gl show ?thesis by (subst buildLevel.simps) simp
  qed
qed

text \<open>What happens outside \<open>ratio \<ge> 2\<close>: no leaf, ratio one, ratio zero, a negative ratio.\<close>

lemma buildLevel_nonempty:
  assumes "buildLevel r bsz k nds = Some y"
  shows "nds \<noteq> []"
proof (rule buildLevel.raw_induct[where P = "\<lambda>ratio bloomSize k nodes y. nodes \<noteq> []", OF _ assms])
  fix bl ratio bloomSize k nodes and y :: "error + Node"
  assume IH: "\<And>a b c d y. bl a b c d = Some y \<Longrightarrow> d \<noteq> []"
    and eq: "(if length nodes = 1 then Some (Inr (hd nodes))
      else case group_level ratio bloomSize k nodes 0 [] of None \<Rightarrow> None
           | Some (Inl e) \<Rightarrow> Some (Inl e)
           | Some (Inr parentLevel) \<Rightarrow> bl ratio bloomSize k parentLevel) = Some y"
  show "nodes \<noteq> []"
  proof
    assume e: "nodes = []"
    have "group_level ratio bloomSize k [] 0 [] = Some (Inr [])"
      by (subst group_level.simps) simp
    with eq e have "bl ratio bloomSize k [] = Some y" by simp
    from IH[OF this] show False by simp
  qed
qed

lemma buildLevel_empty: "buildLevel r bsz k [] = None"
  using buildLevel_nonempty[of r bsz k "[]"] by (cases "buildLevel r bsz k []") auto

lemma length_runs_of_one: "length (runs_of (Suc 0) xs) = length xs"
proof (induction xs)
  case Nil
  then show ?case by (simp add: runs_of.simps[of _ "[]"])
next
  case (Cons x xs)
  then show ?case by (subst runs_of.simps) simp
qed

lemma buildLevel_ratio_one_aux:
  assumes "buildLevel r bsz k nds = Some y"
  shows "\<not> (r = 1 \<and> level_ok bsz nds \<and> length nds + 1 < 2 ^ 64 \<and> length nds \<noteq> 1)"
proof (rule buildLevel.raw_induct[where P = "\<lambda>ratio bloomSize k nodes y.
         \<not> (ratio = 1 \<and> level_ok bloomSize nodes \<and> length nodes + 1 < 2 ^ 64 \<and> length nodes \<noteq> 1)",
       OF _ assms])
  fix bl ratio bloomSize k nodes and y :: "error + Node"
  assume IH: "\<And>a b c d y. bl a b c d = Some y \<Longrightarrow>
                \<not> (a = 1 \<and> level_ok b d \<and> length d + 1 < 2 ^ 64 \<and> length d \<noteq> 1)"
    and eq: "(if length nodes = 1 then Some (Inr (hd nodes))
      else case group_level ratio bloomSize k nodes 0 [] of None \<Rightarrow> None
           | Some (Inl e) \<Rightarrow> Some (Inl e)
           | Some (Inr parentLevel) \<Rightarrow> bl ratio bloomSize k parentLevel) = Some y"
  show "\<not> (ratio = 1 \<and> level_ok bloomSize nodes \<and> length nodes + 1 < 2 ^ 64 \<and> length nodes \<noteq> 1)"
  proof
    assume a: "ratio = 1 \<and> level_ok bloomSize nodes \<and> length nodes + 1 < 2 ^ 64 \<and>
               length nodes \<noteq> 1"
    let ?ps = "map (parent_node bloomSize k) (runs_of (Suc 0) nodes)"
    from a have nw: "length nodes + nat 1 < 2 ^ 64" by simp
    from a have ok: "level_ok bloomSize nodes" by simp
    from group_level_runs[of 1 nodes bloomSize 0 k "[]", OF _ nw ok]
    have gl: "group_level 1 bloomSize k nodes 0 [] = Some (Inr ?ps)" by simp
    with eq a have "bl 1 bloomSize k ?ps = Some y" by simp
    from IH[OF this] a level_ok_parents[of "Suc 0" bloomSize nodes k]
    show False by (simp add: length_runs_of_one)
  qed
qed

lemma buildLevel_ratio_one:
  assumes "level_ok bsz nds" and "length nds + 1 < 2 ^ 64" and "length nds \<noteq> 1"
  shows "buildLevel 1 bsz k nds = None"
  using buildLevel_ratio_one_aux[of 1 bsz k nds] assms
  by (cases "buildLevel 1 bsz k nds") auto

lemma buildLevel_ratio_zero:
  assumes "2 \<le> length nds"
  shows "buildLevel 0 bsz k nds = Some (Inl UndefinedBehaviour)"
proof -
  from assms have ne: "nds \<noteq> []" by auto
  then have "group_level 0 bsz k nds 0 [] = Some (Inl UndefinedBehaviour)"
    by (subst group_level.simps) (simp add: size_t_add_def make_parent_def)
  with assms show ?thesis by (subst buildLevel.simps) simp
qed

lemma size_t_add_negative:
  assumes "r < 0" and "- (2 ^ 31) \<le> r"
  shows "size_t_add 0 r = nat (2 ^ 64 + r)"
proof -
  from assms have "(r + 2 ^ 64) mod 2 ^ 64 = r + 2 ^ 64" by (intro mod_pos_pos_trivial) auto
  then have m: "r mod 2 ^ 64 = r + 2 ^ 64" by simp
  from assms have "nat (r + 2 ^ 64) < 2 ^ 64" by auto
  then have "nat (r + 2 ^ 64) mod 2 ^ 64 = nat (r + 2 ^ 64)" by simp
  then show ?thesis by (simp only: size_t_add_def m add_0 add.commute)
qed

lemma buildLevel_negative_ratio:
  assumes r: "r < 0" "- (2 ^ 31) \<le> r" and n: "2 \<le> length nds" "length nds \<le> 2 ^ 63"
    and ok: "level_ok bsz nds"
  shows "buildLevel r bsz k nds = Some (Inr (parent_node bsz k nds))"
proof -
  let ?next = "nat (2 ^ 64 + r)"
  from r have "(2::int) ^ 63 \<le> 2 ^ 64 + r" by simp
  then have "nat ((2::int) ^ 63) \<le> ?next" by (rule nat_mono)
  then have big: "2 ^ 63 \<le> ?next" by simp
  with n have ge: "length nds \<le> ?next" by simp
  then have mn: "min ?next (length nds) = length nds" by simp
  from n have "make_parent bsz k nds 0 (length nds)
                 = Inr (parent_node bsz k (take (length nds - 0) (drop 0 nds)))"
    by (intro make_parent_run ok) auto
  then have mp: "make_parent bsz k nds 0 (length nds) = Inr (parent_node bsz k nds)" by simp
  have stop: "group_level r bsz k nds ?next [parent_node bsz k nds]
                = Some (Inr [parent_node bsz k nds])"
    using ge by (subst group_level.simps) simp
  from n have ne: "nds \<noteq> []" by auto
  have "group_level r bsz k nds 0 [] = Some (Inr [parent_node bsz k nds])"
    by (subst group_level.simps) (simp only: size_t_add_negative[OF r] mn mp, simp add: ne stop[simplified])
  moreover have "buildLevel r bsz k [parent_node bsz k nds] = Some (Inr (parent_node bsz k nds))"
    by (subst buildLevel.simps) simp
  ultimately show ?thesis using n by (subst buildLevel.simps) simp
qed

lemma level_shrinks:
  assumes "2 \<le> r" and "2 \<le> length nds" and "length nds + nat r < 2 ^ 64" and "level_ok bsz nds"
  shows "\<exists>parents. group_level r bsz k nds 0 [] = Some (Inr parents) \<and> parents \<noteq> [] \<and>
                   length parents < length nds"
proof -
  from assms(1) have r1: "1 \<le> r" and N: "0 < nat r" "2 \<le> nat r" by auto
  from assms(2) have ne: "nds \<noteq> []" by auto
  from group_level_runs[OF r1 assms(3,4), of 0 k "[]"] runs_of_shrinks[OF N(2) assms(2)]
    runs_of_nonempty[OF N(1) ne]
  show ?thesis by simp
qed

text \<open>Every tree over well-shaped leaves keeps the invariants, by induction on how it was built.\<close>

lemma subnodes_eq: "subnodes n = n # concat (map subnodes (children n))"
  by (cases n) simp

lemma leaves_under_eq:
  "leaves_under n = (if children n = [] then [n] else concat (map leaves_under (children n)))"
  by (cases n) simp

lemma self_in_subnodes: "n \<in> set (subnodes n)"
  by (subst subnodes_eq) simp

lemma subnodes_child: "c \<in> set (children nd) \<Longrightarrow> set (subnodes c) \<subseteq> set (subnodes nd)"
  by (subst (2) subnodes_eq) auto

lemma exists_mono_bits:
  assumes "filter_shape bsz k a" and "filter_shape bsz k b" and "0 < bsz"
    and "\<forall>i < bsz. bitArray a ! i \<longrightarrow> bitArray b ! i"
    and "BloomFilter_exists a v"
  shows "BloomFilter_exists b v"
proof -
  from assms(1,2) have h: "hash a = hash b" by (simp add: filter_shape_def hash_def fun_eq_iff)
  from assms(2,3) have "hash b v s < bsz" for s by (simp add: filter_shape_def hash_def)
  with assms show ?thesis by (auto simp: exists_iff filter_shape_def h)
qed

lemma Min_over_runs:
  fixes f :: "'a \<Rightarrow> string"
  assumes "run \<noteq> []" and "\<forall>c \<in> set run. g c \<noteq> []"
  shows "Min ((\<lambda>c. Min (f ` set (g c))) ` set run) = Min (f ` set (concat (map g run)))"
proof (rule Min_eqI)
  let ?A = "f ` set (concat (map g run))"
  show "finite ((\<lambda>c. Min (f ` set (g c))) ` set run)" by simp
  have ne: "?A \<noteq> {}" using assms by (cases run) auto
  { fix y assume "y \<in> (\<lambda>c. Min (f ` set (g c))) ` set run"
    then obtain c where c: "c \<in> set run" "y = Min (f ` set (g c))" by auto
    with assms(2) have "y \<in> f ` set (g c)" by (auto intro!: Min_in)
    with c(1) have "y \<in> ?A" by auto
    then show "Min ?A \<le> y" by simp }
  from Min_in[OF _ ne] obtain c x where cx: "c \<in> set run" "x \<in> set (g c)" "Min ?A = f x" by auto
  have "Min (f ` set (g c)) \<le> f x" using cx(2) by simp
  moreover have "Min ?A \<le> Min (f ` set (g c))"
  proof -
    from assms(2) cx(1) have "Min (f ` set (g c)) \<in> f ` set (g c)" by (auto intro!: Min_in)
    with cx(1) have "Min (f ` set (g c)) \<in> ?A" by auto
    then show ?thesis by simp
  qed
  ultimately have "Min ?A = Min (f ` set (g c))" using cx(3) by simp
  with cx(1) show "Min ?A \<in> (\<lambda>c. Min (f ` set (g c))) ` set run" by auto
qed

lemma Max_over_runs:
  fixes f :: "'a \<Rightarrow> string"
  assumes "run \<noteq> []" and "\<forall>c \<in> set run. g c \<noteq> []"
  shows "Max ((\<lambda>c. Max (f ` set (g c))) ` set run) = Max (f ` set (concat (map g run)))"
proof (rule Max_eqI)
  let ?A = "f ` set (concat (map g run))"
  show "finite ((\<lambda>c. Max (f ` set (g c))) ` set run)" by simp
  have ne: "?A \<noteq> {}" using assms by (cases run) auto
  { fix y assume "y \<in> (\<lambda>c. Max (f ` set (g c))) ` set run"
    then obtain c where c: "c \<in> set run" "y = Max (f ` set (g c))" by auto
    with assms(2) have "y \<in> f ` set (g c)" by (auto intro!: Max_in)
    with c(1) have "y \<in> ?A" by auto
    then show "y \<le> Max ?A" by simp }
  from Max_in[OF _ ne] obtain c x where cx: "c \<in> set run" "x \<in> set (g c)" "Max ?A = f x" by auto
  have "f x \<le> Max (f ` set (g c))" using cx(2) by simp
  moreover have "Max (f ` set (g c)) \<le> Max ?A"
  proof -
    from assms(2) cx(1) have "Max (f ` set (g c)) \<in> f ` set (g c)" by (auto intro!: Max_in)
    with cx(1) have "Max (f ` set (g c)) \<in> ?A" by auto
    then show ?thesis by simp
  qed
  ultimately have "Max ?A = Max (f ` set (g c))" using cx(3) by simp
  with cx(1) show "Max ?A \<in> (\<lambda>c. Max (f ` set (g c))) ` set run" by auto
qed

lemma node_inv_leaf:
  assumes "n \<in> L" and "\<forall>l \<in> L. children l = [] \<and> filter_shape bsz k (bloom l)"
  shows "node_inv bsz k L n"
  using assms by (simp add: node_inv_def spans_leaves_def leaves_under_eq)

lemma node_inv_parent:
  assumes run: "run \<noteq> []" "level_ok bsz run" and cs: "\<forall>c \<in> set run. node_inv bsz k L c"
  shows "node_inv bsz k L (parent_node bsz k run)"
proof -
  let ?p = "parent_node bsz k run"
  note s = parent_node_summarises[OF run, of k]
  from s have sh: "filter_shape bsz k (bloom ?p)" by (simp add: summarises_def filter_shape_def)
  from s run(1) have lu: "leaves_under ?p = concat (map leaves_under run)"
    by (simp add: leaves_under_eq)
  from cs have ne: "\<forall>c \<in> set run. leaves_under c \<noteq> []" by (simp add: node_inv_def)
  from run(1) ne have lne: "leaves_under ?p \<noteq> []" unfolding lu by (cases run) auto
  from cs have sub: "set (leaves_under ?p) \<subseteq> L" unfolding lu by (auto simp: node_inv_def)
  have "startKey ?p = Min (startKey ` set run)" using s by (simp add: summarises_def)
  also have "startKey ` set run = (\<lambda>c. Min (startKey ` set (leaves_under c))) ` set run"
    using cs by (auto simp: node_inv_def spans_leaves_def intro!: image_cong)
  also have "Min \<dots> = Min (startKey ` set (leaves_under ?p))"
    unfolding lu by (rule Min_over_runs[OF run(1) ne])
  finally have st: "startKey ?p = Min (startKey ` set (leaves_under ?p))" .
  have "endKey ?p = Max (endKey ` set run)" using s by (simp add: summarises_def)
  also have "endKey ` set run = (\<lambda>c. Max (endKey ` set (leaves_under c))) ` set run"
    using cs by (auto simp: node_inv_def spans_leaves_def intro!: image_cong)
  also have "Max \<dots> = Max (endKey ` set (leaves_under ?p))"
    unfolding lu by (rule Max_over_runs[OF run(1) ne])
  finally have en: "endKey ?p = Max (endKey ` set (leaves_under ?p))" .
  have bits: "\<forall>i < bsz. bitArray (bloom ?p) ! i \<longleftrightarrow>
                (\<exists>l \<in> set (leaves_under ?p). bitArray (bloom l) ! i)"
  proof (intro allI impI)
    fix i assume i: "i < bsz"
    with s have "bitArray (bloom ?p) ! i \<longleftrightarrow> (\<exists>c \<in> set run. bitArray (bloom c) ! i)"
      by (simp add: summarises_def)
    also have "\<dots> \<longleftrightarrow> (\<exists>c \<in> set run. \<exists>l \<in> set (leaves_under c). bitArray (bloom l) ! i)"
      using cs i by (auto simp: node_inv_def spans_leaves_def)
    also have "\<dots> \<longleftrightarrow> (\<exists>l \<in> set (leaves_under ?p). bitArray (bloom l) ! i)"
      unfolding lu by auto
    finally show "bitArray (bloom ?p) ! i \<longleftrightarrow>
                (\<exists>l \<in> set (leaves_under ?p). bitArray (bloom l) ! i)" .
  qed
  from sh lne sub st en bits show ?thesis by (simp add: node_inv_def spans_leaves_def)
qed

lemma built_invariants:
  assumes "built r bsz k L t"
    and L: "\<forall>l \<in> L. children l = [] \<and> filter_shape bsz k (bloom l)"
  shows "\<forall>n \<in> set (subnodes t). node_inv bsz k L n \<and>
            (\<forall>c \<in> set (children n). node_inv bsz k L c) \<and>
            (children n \<noteq> [] \<longrightarrow> length (children n) \<le> nat r \<and> summarises bsz k n)"
  using assms(1)
proof (induction rule: built.induct)
  case (built_leaf n)
  with L have "children n = []" by simp
  then have "subnodes n = [n]" by (subst subnodes_eq) simp
  with node_inv_leaf[OF built_leaf L] \<open>children n = []\<close> show ?case by simp
next
  case (built_parent run)
  let ?p = "parent_node bsz k run"
  have cs: "\<forall>c \<in> set run. node_inv bsz k L c"
  proof
    fix c assume "c \<in> set run"
    with built_parent have "\<forall>n \<in> set (subnodes c). node_inv bsz k L n" by simp
    with self_in_subnodes[of c] show "node_inv bsz k L c" by blast
  qed
  note inv = node_inv_parent[OF built_parent(1,3) cs]
  note s = parent_node_summarises[OF built_parent(1,3), of k]
  have "subnodes ?p = ?p # concat (map subnodes run)"
    by (subst subnodes_eq) (simp add: s)
  with inv s cs built_parent show ?case by auto
qed

lemma buildLevel_one_group:
  assumes "2 \<le> length nds" and "length nds \<le> nat r" and "length nds + nat r < 2 ^ 64"
    and "level_ok bsz nds"
  shows "buildLevel r bsz k nds = Some (Inr (parent_node bsz k nds))"
proof -
  from assms(1,2) have r: "1 \<le> r" by auto
  from assms(1) have ne: "nds \<noteq> []" by auto
  from assms(1,2) ne have "runs_of (nat r) nds = [nds]" by (intro runs_of_short[THEN trans]) auto
  with group_level_runs[OF r assms(3,4), of 0 k "[]"]
  have "group_level r bsz k nds 0 [] = Some (Inr [parent_node bsz k nds])" by simp
  moreover have "buildLevel r bsz k [parent_node bsz k nds] = Some (Inr (parent_node bsz k nds))"
    by (subst buildLevel.simps) simp
  ultimately show ?thesis using assms(1) by (subst buildLevel.simps) simp
qed

lemma murmur_b_0: "MurmurHash3_x86_32 ''b'' 0 = 0x95de7e03"
  by (simp add: MurmurHash3_x86_32_def fmix32_def mix_k1_def ROTL32_def)

lemma murmur_b_1: "MurmurHash3_x86_32 ''b'' 1 = 0x77937a47"
  by (simp add: MurmurHash3_x86_32_def fmix32_def mix_k1_def ROTL32_def)

lemma murmur_v_0: "MurmurHash3_x86_32 ''v'' 0 = 0xbdafcc55"
  by (simp add: MurmurHash3_x86_32_def fmix32_def mix_k1_def ROTL32_def)

lemma murmur_v_1: "MurmurHash3_x86_32 ''v'' 1 = 0x4a0c05fe"
  by (simp add: MurmurHash3_x86_32_def fmix32_def mix_k1_def ROTL32_def)

lemma hash_b_8: "bitArraySize bf = 8 \<Longrightarrow> hash bf ''b'' 0 = 3" "bitArraySize bf = 8 \<Longrightarrow> hash bf ''b'' 1 = 7"
  by (simp_all add: hash_def murmur_b_0 murmur_b_1)

lemma hash_v_8: "bitArraySize bf = 8 \<Longrightarrow> hash bf ''v'' 0 = 5" "bitArraySize bf = 8 \<Longrightarrow> hash bf ''v'' 1 = 6"
  by (simp_all add: hash_def murmur_v_0 murmur_v_1)

lemma replicate_8: "replicate 8 x = [x, x, x, x, x, x, x, x]"
  by (simp add: eval_nat_numeral)

lemma update_numeral_Cons: "(x # xs)[numeral n := y] = x # xs[pred_numeral n := y]"
  by (simp add: numeral_eq_Suc)

lemma leaf_b: "leaf_of_run ''f'' 8 2 [(''k1'', ''b'')] =
    Node [] \<lparr>bitArray = [False, False, False, True, False, False, False, True],
             numHashFunctions = 2, bitArraySize = 8\<rparr> ''f'' ''k1'' ''k1''"
  by (simp add: leaf_of_run_def BloomFilter_insert_def new_BloomFilter_def hash_b_8 upt_rec
      replicate_8 update_numeral_Cons)

lemma leaf_v: "leaf_of_run ''g'' 8 2 [(''k2'', ''v'')] =
    Node [] \<lparr>bitArray = [False, False, False, False, False, True, True, False],
             numHashFunctions = 2, bitArraySize = 8\<rparr> ''g'' ''k2'' ''k2''"
  by (simp add: leaf_of_run_def BloomFilter_insert_def new_BloomFilter_def hash_v_8 upt_rec
      replicate_8 update_numeral_Cons)

lemma leaf_v1: "leaf_of_run f 8 1 [(key, ''v'')] =
    Node [] \<lparr>bitArray = [False, False, False, False, False, True, False, False],
             numHashFunctions = 1, bitArraySize = 8\<rparr> f key key"
  by (simp add: leaf_of_run_def BloomFilter_insert_def new_BloomFilter_def hash_v_8 upt_rec
      replicate_8 update_numeral_Cons)

lemma exists_v1:
  "BloomFilter_exists \<lparr>bitArray = [False, False, False, False, False, True, False, False],
             numHashFunctions = 1, bitArraySize = 8\<rparr> ''v''"
  by (simp add: BloomFilter_exists_def hash_v_8 upt_rec)

subsection \<open>Claim C2: what an interior node summarises\<close>

text \<open>
  Claim C2, as stated: in every tree the builder produces, every interior node has the
  least start key and the greatest end key of its children (hence of the leaves below it)
  and the bitwise OR of their filters, so that \<open>exists v\<close> on an interior node implies
  \<open>exists v\<close> on a leaf below it.

  The last implication fails: the bits of \<open>''x''\<close> can come from two leaves. The builder
  makes a root over the leaf of the value \<open>''b''\<close> (bits 3 and 7) and the leaf of the value
  \<open>''v''\<close> (bits 5 and 6); the root has the bits 3 and 6 of \<open>''x''\<close>, neither leaf has both.
\<close>

theorem interior_positive_counterexample:
  "buildLevel 2 8 2 [leaf_of_run ''f'' 8 2 [(''k1'', ''b'')], leaf_of_run ''g'' 8 2 [(''k2'', ''v'')]]
     = Some (Inr (Node [leaf_of_run ''f'' 8 2 [(''k1'', ''b'')], leaf_of_run ''g'' 8 2 [(''k2'', ''v'')]]
                   \<lparr>bitArray = [False, False, False, True, False, True, True, True],
                    numHashFunctions = 2, bitArraySize = 8\<rparr> ''Memory'' ''k1'' ''k2'')) \<and>
   BloomFilter_exists \<lparr>bitArray = [False, False, False, True, False, True, True, True],
                       numHashFunctions = 2, bitArraySize = 8\<rparr> ''x'' \<and>
   \<not> BloomFilter_exists (bloom (leaf_of_run ''f'' 8 2 [(''k1'', ''b'')])) ''x'' \<and>
   \<not> BloomFilter_exists (bloom (leaf_of_run ''g'' 8 2 [(''k2'', ''v'')])) ''x''"
proof -
  have "buildLevel 2 8 2 [leaf_of_run ''f'' 8 2 [(''k1'', ''b'')], leaf_of_run ''g'' 8 2 [(''k2'', ''v'')]]
     = Some (Inr (parent_node 8 2
          [leaf_of_run ''f'' 8 2 [(''k1'', ''b'')], leaf_of_run ''g'' 8 2 [(''k2'', ''v'')]]))"
    by (rule buildLevel_one_group) (simp_all add: level_ok_def leaf_b leaf_v)
  then show ?thesis
    by (simp add: leaf_b leaf_v parent_node_def BloomFilter_merge_def new_BloomFilter_def
        BloomFilter_exists_def hash_x_8 upt_rec replicate_8)
qed

text \<open>
  Claim C2, amended: for at least one leaf without children, filters of the shape
  \<open>(m, k)\<close> with \<open>m > 0\<close> and a ratio of at least 2, the builder returns a tree in which
  every interior node has the least start key and the greatest end key of its children,
  the same over the leaves below it, and a filter whose bits are the OR of its children's
  bits and the OR of the bits of the leaves below it; so \<open>exists v\<close> on a leaf below an
  interior node implies \<open>exists v\<close> on that node. (The converse is what fails.)
\<close>

theorem buildLevel_summaries:
  assumes "2 \<le> r" and "leaves \<noteq> []" and "length leaves + nat r < 2 ^ 64" and "0 < bsz"
    and "\<forall>l \<in> set leaves. children l = [] \<and> filter_shape bsz k (bloom l)"
  shows "\<exists>t. buildLevel r bsz k leaves = Some (Inr t) \<and>
           (\<forall>n \<in> set (subnodes t). children n \<noteq> [] \<longrightarrow>
              startKey n = Min (startKey ` set (children n)) \<and>
              endKey n = Max (endKey ` set (children n)) \<and>
              startKey n = Min (startKey ` set (leaves_under n)) \<and>
              endKey n = Max (endKey ` set (leaves_under n)) \<and>
              length (bitArray (bloom n)) = bsz \<and>
              (\<forall>c \<in> set (children n). length (bitArray (bloom c)) = bsz) \<and>
              (\<forall>i < bsz. bitArray (bloom n) ! i \<longleftrightarrow>
                         (\<exists>c \<in> set (children n). bitArray (bloom c) ! i)) \<and>
              (\<forall>i < bsz. bitArray (bloom n) ! i \<longleftrightarrow>
                         (\<exists>l \<in> set (leaves_under n). bitArray (bloom l) ! i)) \<and>
              (\<forall>v. (\<exists>l \<in> set (leaves_under n). BloomFilter_exists (bloom l) v) \<longrightarrow>
                    BloomFilter_exists (bloom n) v))"
proof -
  let ?L = "set leaves"
  from assms(5) have ok: "level_ok bsz leaves" by (simp add: level_ok_def filter_shape_def)
  have "\<forall>c \<in> set leaves. built r bsz k ?L c" by (simp add: built_leaf)
  from buildLevel_total[OF assms(1,2,3) ok this]
  obtain t where t: "buildLevel r bsz k leaves = Some (Inr t)" "built r bsz k ?L t" by auto
  note inv = built_invariants[OF t(2) assms(5)]
  have "\<forall>n \<in> set (subnodes t). children n \<noteq> [] \<longrightarrow>
              startKey n = Min (startKey ` set (children n)) \<and>
              endKey n = Max (endKey ` set (children n)) \<and>
              startKey n = Min (startKey ` set (leaves_under n)) \<and>
              endKey n = Max (endKey ` set (leaves_under n)) \<and>
              length (bitArray (bloom n)) = bsz \<and>
              (\<forall>c \<in> set (children n). length (bitArray (bloom c)) = bsz) \<and>
              (\<forall>i < bsz. bitArray (bloom n) ! i \<longleftrightarrow>
                         (\<exists>c \<in> set (children n). bitArray (bloom c) ! i)) \<and>
              (\<forall>i < bsz. bitArray (bloom n) ! i \<longleftrightarrow>
                         (\<exists>l \<in> set (leaves_under n). bitArray (bloom l) ! i)) \<and>
              (\<forall>v. (\<exists>l \<in> set (leaves_under n). BloomFilter_exists (bloom l) v) \<longrightarrow>
                    BloomFilter_exists (bloom n) v)"
  proof (intro ballI impI)
    fix n assume n: "n \<in> set (subnodes t)" "children n \<noteq> []"
    with inv have ni: "node_inv bsz k ?L n" and s: "summarises bsz k n"
      and cs: "\<forall>c \<in> set (children n). node_inv bsz k ?L c" by auto
    have ex: "\<forall>v. (\<exists>l \<in> set (leaves_under n). BloomFilter_exists (bloom l) v) \<longrightarrow>
                    BloomFilter_exists (bloom n) v"
    proof (intro allI impI)
      fix v assume "\<exists>l \<in> set (leaves_under n). BloomFilter_exists (bloom l) v"
      then obtain l where l: "l \<in> set (leaves_under n)" "BloomFilter_exists (bloom l) v" by auto
      with ni assms(5) have shl: "filter_shape bsz k (bloom l)" by (auto simp: node_inv_def)
      from ni have shn: "filter_shape bsz k (bloom n)" by (simp add: node_inv_def)
      from ni l(1) have "\<forall>i < bsz. bitArray (bloom l) ! i \<longrightarrow> bitArray (bloom n) ! i"
        by (auto simp: node_inv_def spans_leaves_def)
      from exists_mono_bits[OF shl shn assms(4) this l(2)]
      show "BloomFilter_exists (bloom n) v" .
    qed
    from ni s cs ex
    show "startKey n = Min (startKey ` set (children n)) \<and>
              endKey n = Max (endKey ` set (children n)) \<and>
              startKey n = Min (startKey ` set (leaves_under n)) \<and>
              endKey n = Max (endKey ` set (leaves_under n)) \<and>
              length (bitArray (bloom n)) = bsz \<and>
              (\<forall>c \<in> set (children n). length (bitArray (bloom c)) = bsz) \<and>
              (\<forall>i < bsz. bitArray (bloom n) ! i \<longleftrightarrow>
                         (\<exists>c \<in> set (children n). bitArray (bloom c) ! i)) \<and>
              (\<forall>i < bsz. bitArray (bloom n) ! i \<longleftrightarrow>
                         (\<exists>l \<in> set (leaves_under n). bitArray (bloom l) ! i)) \<and>
              (\<forall>v. (\<exists>l \<in> set (leaves_under n). BloomFilter_exists (bloom l) v) \<longrightarrow>
                    BloomFilter_exists (bloom n) v)"
      by (simp add: node_inv_def spans_leaves_def summarises_def filter_shape_def)
  qed
  with t(1) show ?thesis by blast
qed

theorem buildLevel_summaries_witness:
  "(2::int) \<le> 2 \<and>
   [leaf_of_run ''f'' 8 2 [(''k1'', ''b'')], leaf_of_run ''g'' 8 2 [(''k2'', ''v'')]] \<noteq> [] \<and>
   length [leaf_of_run ''f'' 8 2 [(''k1'', ''b'')], leaf_of_run ''g'' 8 2 [(''k2'', ''v'')]]
     + nat 2 < 2 ^ 64 \<and> (0::nat) < 8 \<and>
   children (leaf_of_run ''f'' 8 2 [(''k1'', ''b'')]) = [] \<and>
   filter_shape 8 2 (bloom (leaf_of_run ''f'' 8 2 [(''k1'', ''b'')])) \<and>
   children (leaf_of_run ''g'' 8 2 [(''k2'', ''v'')]) = [] \<and>
   filter_shape 8 2 (bloom (leaf_of_run ''g'' 8 2 [(''k2'', ''v'')])) \<and>
   (\<exists>t. buildLevel 2 8 2
           [leaf_of_run ''f'' 8 2 [(''k1'', ''b'')], leaf_of_run ''g'' 8 2 [(''k2'', ''v'')]]
         = Some (Inr t) \<and>
        (\<forall>n \<in> set (subnodes t). children n \<noteq> [] \<longrightarrow>
           startKey n = Min (startKey ` set (children n)) \<and>
           endKey n = Max (endKey ` set (children n))))"
proof -
  have h1: "(2::int) \<le> 2" by simp
  have h2: "[leaf_of_run ''f'' 8 2 [(''k1'', ''b'')], leaf_of_run ''g'' 8 2 [(''k2'', ''v'')]] \<noteq> []"
    by simp
  have h3: "length [leaf_of_run ''f'' 8 2 [(''k1'', ''b'')], leaf_of_run ''g'' 8 2 [(''k2'', ''v'')]]
     + nat 2 < 2 ^ 64" by simp
  have h4: "(0::nat) < 8" by simp
  have h5: "\<forall>l \<in> set [leaf_of_run ''f'' 8 2 [(''k1'', ''b'')], leaf_of_run ''g'' 8 2 [(''k2'', ''v'')]].
              children l = [] \<and> filter_shape 8 2 (bloom l)"
    by (simp add: leaf_b leaf_v filter_shape_def)
  from buildLevel_summaries[OF h1 h2 h3 h4 h5] h5 show ?thesis by simp blast
qed

subsection \<open>Claim C10: termination of the composition\<close>

text \<open>
  Claim C10, as stated: with at least one leaf and \<open>r \<ge> 2\<close> the composition terminates
  with a single root because every level is strictly shorter than the one before; with no
  leaf, or with \<open>r \<le> 1\<close> and more than one leaf, the level size never decreases to one.

  The second half fails for a negative ratio: \<open>i + ratio\<close> is computed in \<^verbatim>\<open>size_t\<close>, so
  with \<open>ratio = -1\<close> the first group ends at \<open>nodes.size()\<close>, the loop stops after it, and
  two leaves get one parent, which is the root.
\<close>

theorem negative_ratio_counterexample:
  "buildLevel (- 1) 8 2
     [Node [] (new_BloomFilter 8 2) ''f'' ''k1'' ''k2'', Node [] (new_BloomFilter 8 2) ''g'' ''k3'' ''k4'']
   = Some (Inr (Node [Node [] (new_BloomFilter 8 2) ''f'' ''k1'' ''k2'',
                      Node [] (new_BloomFilter 8 2) ''g'' ''k3'' ''k4'']
                  (new_BloomFilter 8 2) ''Memory'' ''k1'' ''k4''))"
proof -
  have "buildLevel (- 1) 8 2
     [Node [] (new_BloomFilter 8 2) ''f'' ''k1'' ''k2'', Node [] (new_BloomFilter 8 2) ''g'' ''k3'' ''k4'']
   = Some (Inr (parent_node 8 2
       [Node [] (new_BloomFilter 8 2) ''f'' ''k1'' ''k2'', Node [] (new_BloomFilter 8 2) ''g'' ''k3'' ''k4'']))"
    by (rule buildLevel_negative_ratio) (simp_all add: level_ok_def new_BloomFilter_def)
  then show ?thesis
    by (simp add: parent_node_def BloomFilter_merge_def new_BloomFilter_def replicate_8)
qed

text \<open>
  Claim C10, amended: with at least one node, \<open>r \<ge> 2\<close> (and \<open>length + r\<close> below \<open>2 ^ 64\<close>)
  and filters of the tree's length at every leaf, \<^verbatim>\<open>buildLevel\<close> returns a root, every level
  of two or more nodes is followed by a non-empty, strictly shorter level, and
  \<^verbatim>\<open>buildTree\<close> returns too (with the root set, or with the failure of a sidecar write).
  With no leaf \<^verbatim>\<open>buildLevel\<close> never returns, whatever the ratio. With two or more leaves:
  for \<open>r = 1\<close> it never returns; for \<open>r = 0\<close> it reads \<open>nodes[-1]\<close>; for a negative \<open>r\<close>
  it returns the parent of all the leaves.
\<close>

theorem buildLevel_termination:
  "(2 \<le> r \<and> nds \<noteq> [] \<and> length nds + nat r < 2 ^ 64 \<and> level_ok bsz nds \<longrightarrow>
      (\<exists>t. buildLevel r bsz k nds = Some (Inr t)) \<and>
      (2 \<le> length nds \<longrightarrow>
         (\<exists>parents. group_level r bsz k nds 0 [] = Some (Inr parents) \<and> parents \<noteq> [] \<and>
                    length parents < length nds))) \<and>
   buildLevel r bsz k [] = None \<and>
   (2 \<le> length nds \<and> length nds + 1 < 2 ^ 64 \<and> level_ok bsz nds \<longrightarrow>
      buildLevel 1 bsz k nds = None) \<and>
   (2 \<le> length nds \<longrightarrow> buildLevel 0 bsz k nds = Some (Inl UndefinedBehaviour)) \<and>
   (r < 0 \<and> - (2 ^ 31) \<le> r \<and> 2 \<le> length nds \<and> length nds \<le> 2 ^ 63 \<and> level_ok bsz nds \<longrightarrow>
      buildLevel r bsz k nds = Some (Inr (parent_node bsz k nds))) \<and>
   (2 \<le> r \<and> nds \<noteq> [] \<and> length nds + nat r < 2 ^ 64 \<and> level_ok bsz nds \<longrightarrow>
      (\<exists>t. buildTree \<lparr>root = None, ratio = r, bloomSize = bsz, treeNumHashFunctions = k,
                         leafNodes = nds\<rparr> fs =
             Some (case save_leaves nds fs of
                     Inl e \<Rightarrow> Inl e
                   | Inr fs' \<Rightarrow> Inr (\<lparr>root = Some t, ratio = r, bloomSize = bsz,
                                     treeNumHashFunctions = k, leafNodes = nds\<rparr>, fs'))))"
proof (intro conjI impI)
  assume a: "2 \<le> r \<and> nds \<noteq> [] \<and> length nds + nat r < 2 ^ 64 \<and> level_ok bsz nds"
  have "\<forall>c \<in> set nds. built r bsz k (set nds) c" by (simp add: built_leaf)
  with a buildLevel_total[of r nds bsz k "set nds"]
  show "\<exists>t. buildLevel r bsz k nds = Some (Inr t)" by blast
  assume "2 \<le> length nds"
  with a level_shrinks[of r nds bsz k]
  show "\<exists>parents. group_level r bsz k nds 0 [] = Some (Inr parents) \<and> parents \<noteq> [] \<and>
                    length parents < length nds" by blast
next
  show "buildLevel r bsz k [] = None" by (rule buildLevel_empty)
next
  assume "2 \<le> length nds \<and> length nds + 1 < 2 ^ 64 \<and> level_ok bsz nds"
  then show "buildLevel 1 bsz k nds = None" by (intro buildLevel_ratio_one) auto
next
  assume "2 \<le> length nds"
  then show "buildLevel 0 bsz k nds = Some (Inl UndefinedBehaviour)"
    by (rule buildLevel_ratio_zero)
next
  assume "r < 0 \<and> - (2 ^ 31) \<le> r \<and> 2 \<le> length nds \<and> length nds \<le> 2 ^ 63 \<and> level_ok bsz nds"
  then show "buildLevel r bsz k nds = Some (Inr (parent_node bsz k nds))"
    by (intro buildLevel_negative_ratio) auto
next
  assume a: "2 \<le> r \<and> nds \<noteq> [] \<and> length nds + nat r < 2 ^ 64 \<and> level_ok bsz nds"
  have "\<forall>c \<in> set nds. built r bsz k (set nds) c" by (simp add: built_leaf)
  with a buildLevel_total[of r nds bsz k "set nds"]
  obtain t where "buildLevel r bsz k nds = Some (Inr t)" by blast
  then have "buildTree \<lparr>root = None, ratio = r, bloomSize = bsz, treeNumHashFunctions = k,
                         leafNodes = nds\<rparr> fs =
             Some (case save_leaves nds fs of
                     Inl e \<Rightarrow> Inl e
                   | Inr fs' \<Rightarrow> Inr (\<lparr>root = Some t, ratio = r, bloomSize = bsz,
                                     treeNumHashFunctions = k, leafNodes = nds\<rparr>, fs'))"
    by (simp add: buildTree_def split: sum.splits)
  then show "\<exists>t. buildTree \<lparr>root = None, ratio = r, bloomSize = bsz, treeNumHashFunctions = k,
                         leafNodes = nds\<rparr> fs =
             Some (case save_leaves nds fs of
                     Inl e \<Rightarrow> Inl e
                   | Inr fs' \<Rightarrow> Inr (\<lparr>root = Some t, ratio = r, bloomSize = bsz,
                                     treeNumHashFunctions = k, leafNodes = nds\<rparr>, fs'))" ..
qed

theorem buildLevel_termination_witness:
  "level_ok 8 [Node [] (new_BloomFilter 8 2) ''f'' ''k1'' ''k2'',
               Node [] (new_BloomFilter 8 2) ''g'' ''k3'' ''k4'',
               Node [] (new_BloomFilter 8 2) ''h'' ''k5'' ''k6''] \<and>
   (\<exists>t. buildLevel 2 8 2 [Node [] (new_BloomFilter 8 2) ''f'' ''k1'' ''k2'',
               Node [] (new_BloomFilter 8 2) ''g'' ''k3'' ''k4'',
               Node [] (new_BloomFilter 8 2) ''h'' ''k5'' ''k6''] = Some (Inr t)) \<and>
   buildLevel 1 8 2 [Node [] (new_BloomFilter 8 2) ''f'' ''k1'' ''k2'',
               Node [] (new_BloomFilter 8 2) ''g'' ''k3'' ''k4'',
               Node [] (new_BloomFilter 8 2) ''h'' ''k5'' ''k6''] = None \<and>
   buildLevel 0 8 2 [Node [] (new_BloomFilter 8 2) ''f'' ''k1'' ''k2'',
               Node [] (new_BloomFilter 8 2) ''g'' ''k3'' ''k4'',
               Node [] (new_BloomFilter 8 2) ''h'' ''k5'' ''k6''] = Some (Inl UndefinedBehaviour) \<and>
   (\<exists>t. buildLevel (- 3) 8 2 [Node [] (new_BloomFilter 8 2) ''f'' ''k1'' ''k2'',
               Node [] (new_BloomFilter 8 2) ''g'' ''k3'' ''k4'',
               Node [] (new_BloomFilter 8 2) ''h'' ''k5'' ''k6''] = Some (Inr t))"
proof -
  have ok: "level_ok 8 [Node [] (new_BloomFilter 8 2) ''f'' ''k1'' ''k2'',
               Node [] (new_BloomFilter 8 2) ''g'' ''k3'' ''k4'',
               Node [] (new_BloomFilter 8 2) ''h'' ''k5'' ''k6'']"
    by (simp add: level_ok_def new_BloomFilter_def)
  from ok buildLevel_termination[of 2 "[Node [] (new_BloomFilter 8 2) ''f'' ''k1'' ''k2'',
               Node [] (new_BloomFilter 8 2) ''g'' ''k3'' ''k4'',
               Node [] (new_BloomFilter 8 2) ''h'' ''k5'' ''k6'']" 8 2 no_files]
    buildLevel_termination[of "- 3" "[Node [] (new_BloomFilter 8 2) ''f'' ''k1'' ''k2'',
               Node [] (new_BloomFilter 8 2) ''g'' ''k3'' ''k4'',
               Node [] (new_BloomFilter 8 2) ''h'' ''k5'' ''k6'']" 8 2 no_files]
  show ?thesis by simp
qed

section \<open>Per-column query\<close>

text \<open>
  The specified answer of a node is empty when the node does not pass, its own tag when it
  is a passing leaf, and the answers of its children in order otherwise; in a well-tagged
  tree \<^verbatim>\<open>search\<close> appends exactly that.
\<close>

lemma root_to_leaf_paths_eq:
  "root_to_leaf_paths n =
     (if children n = [] then [[n]]
      else map ((#) n) (concat (map root_to_leaf_paths (children n))))"
  by (cases n) simp

lemma root_to_leaf_paths_nonempty: "p \<in> set (root_to_leaf_paths n) \<Longrightarrow> p \<noteq> []"
  by (subst (asm) root_to_leaf_paths_eq) (auto split: if_splits)

lemma query_spec_unfold:
  "query_spec n v qStart qEnd =
     (if passes v qStart qEnd n then
        (if children n = [] then [filename n]
         else concat (map (\<lambda>c. query_spec c v qStart qEnd) (children n)))
      else [])"
proof -
  have last_cons: "filename (last (n # p)) = filename (last p)"
    if "p \<in> set (concat (map root_to_leaf_paths (children n)))" for p
    using that by (auto dest: root_to_leaf_paths_nonempty)
  show ?thesis
  proof (cases "children n = []")
    case True
    then show ?thesis by (simp add: query_spec_def root_to_leaf_paths_eq[of n])
  next
    case False
    then have eq: "root_to_leaf_paths n = map ((#) n) (concat (map root_to_leaf_paths (children n)))"
      by (simp add: root_to_leaf_paths_eq[of n])
    show ?thesis
    proof (cases "passes v qStart qEnd n")
      case no: False
      then show ?thesis by (simp add: query_spec_def eq filter_map comp_def)
    next
      case yes: True
      have "query_spec n v qStart qEnd =
          map (\<lambda>p. filename (last p))
            (filter (list_all (passes v qStart qEnd)) (concat (map root_to_leaf_paths (children n))))"
        using yes last_cons
        by (simp add: query_spec_def eq filter_map comp_def cong: map_cong)
      also have "\<dots> = concat (map (\<lambda>c. query_spec c v qStart qEnd) (children n))"
        by (simp add: query_spec_def filter_concat map_concat comp_def)
      finally show ?thesis using yes False by simp
    qed
  qed
qed

lemma well_tagged_child: "well_tagged n \<Longrightarrow> c \<in> set (children n) \<Longrightarrow> well_tagged c"
  using subnodes_child[of c n] by (auto simp: well_tagged_def)

lemma well_tagged_self: "well_tagged n \<Longrightarrow> children n = [] \<longleftrightarrow> filename n \<noteq> ''Memory''"
  using self_in_subnodes[of n] by (auto simp: well_tagged_def)

lemma fold_search_children:
  assumes "\<And>c res g. c \<in> set cs \<Longrightarrow>
             fst (search c v qStart qEnd (res, g)) = res @ query_spec c v qStart qEnd"
  shows "fst (fold (\<lambda>child acc. search child v qStart qEnd acc) cs (res, g)) =
           res @ concat (map (\<lambda>c. query_spec c v qStart qEnd) cs)"
  using assms
proof (induction cs arbitrary: res g)
  case Nil
  then show ?case by simp
next
  case (Cons c cs)
  obtain res1 g1 where s: "search c v qStart qEnd (res, g) = (res1, g1)"
    by (cases "search c v qStart qEnd (res, g)") auto
  with Cons.prems[of c res g] have r1: "res1 = res @ query_spec c v qStart qEnd" by simp
  from Cons.IH[of res1 g1] Cons.prems s r1 show ?case by simp
qed

lemma search_results:
  "well_tagged n \<Longrightarrow>
     fst (search n v qStart qEnd (res, g)) = res @ query_spec n v qStart qEnd"
proof (induction n arbitrary: res g rule: measure_induct_rule[of size])
  case (less n)
  have kids: "fst (fold (\<lambda>child acc. search child v qStart qEnd acc) (children n) (res', g')) =
           res' @ concat (map (\<lambda>c. query_spec c v qStart qEnd) (children n))" for res' g'
  proof (rule fold_search_children)
    fix c res'' g'' assume c: "c \<in> set (children n)"
    from well_tagged_child[OF less.prems c] size_child[OF c]
    show "fst (search c v qStart qEnd (res'', g'')) = res'' @ query_spec c v qStart qEnd"
      by (rule less.IH[rotated])
  qed
  from well_tagged_self[OF less.prems] show ?case
    by (subst search.simps, subst query_spec_unfold)
       (simp add: kids passes_def overlaps_def Let_def del: search.simps)
qed

lemma search_pruned:
  "\<not> passes v qStart qEnd n \<Longrightarrow>
     search n v qStart qEnd (res, g) =
       (res, if overlaps n qStart qEnd then count_probe n g else g)"
  by (auto simp: passes_def overlaps_def Let_def)

lemma query_unbuilt: "root tree = None \<Longrightarrow> query tree v qStart qEnd g = Inl UndefinedBehaviour"
  by (simp add: query_def)

subsection \<open>Claim C8: the answer of \<open>tree.query\<close>\<close>

text \<open>
  Claim C8, as stated: for every tree, value and optional key range, \<open>query\<close> visits the
  nodes depth-first from the root and returns exactly the file paths of the leaves on the
  root-to-leaf paths every node of which overlaps the range and is filter-positive; a node
  that fails either test prunes its subtree.

  \<^verbatim>\<open>search\<close> takes a node for a leaf when its source tag is not \<open>''Memory''\<close>, whatever its
  children. For a file that is named \<open>''Memory''\<close> the claim fails: the builder makes a leaf
  with that tag, the tree of this one leaf has the leaf as root, the leaf has no bounds to
  miss and is positive for its value \<open>''v''\<close>, and the query for \<open>''v''\<close> consults the filter,
  takes the leaf for an interior node without children and returns nothing, where the
  specified answer is the path of the file.
\<close>

theorem sentinel_file_counterexample:
  "processSSTFile (no_ssts(''Memory'' := Some [(''k1'', ''v'')])) ''Memory'' 1 8 1 =
     [Node [] \<lparr>bitArray = [False, False, False, False, False, True, False, False],
             numHashFunctions = 1, bitArraySize = 8\<rparr>
       ''Memory'' ''k1'' ''k1''] \<and>
   buildLevel 2 8 1
     [Node [] \<lparr>bitArray = [False, False, False, False, False, True, False, False],
             numHashFunctions = 1, bitArraySize = 8\<rparr>
       ''Memory'' ''k1'' ''k1''] =
     Some (Inr (Node [] \<lparr>bitArray = [False, False, False, False, False, True, False, False],
             numHashFunctions = 1, bitArraySize = 8\<rparr>
       ''Memory'' ''k1'' ''k1'')) \<and>
   query
     \<lparr>root = Some (Node [] \<lparr>bitArray = [False, False, False, False, False, True, False, False],
             numHashFunctions = 1, bitArraySize = 8\<rparr>
       ''Memory'' ''k1'' ''k1''),
      ratio = 2, bloomSize = 8, treeNumHashFunctions = 1,
      leafNodes = [Node [] \<lparr>bitArray = [False, False, False, False, False, True, False, False],
             numHashFunctions = 1, bitArraySize = 8\<rparr>
       ''Memory'' ''k1'' ''k1'']\<rparr>
     ''v'' [] [] zero_globals
   = Inr ([], zero_globals\<lparr>gBloomCheckCount := 1\<rparr>) \<and>
   map (\<lambda>p. filename (last p))
     (filter (list_all (passes ''v'' [] []))
        (root_to_leaf_paths
          (Node [] \<lparr>bitArray = [False, False, False, False, False, True, False, False],
             numHashFunctions = 1, bitArraySize = 8\<rparr>
       ''Memory'' ''k1'' ''k1'')))
   = [''Memory'']"
proof -
  have leaves: "processSSTFile (no_ssts(''Memory'' := Some [(''k1'', ''v'')])) ''Memory'' 1 8 1 =
     [Node [] \<lparr>bitArray = [False, False, False, False, False, True, False, False],
             numHashFunctions = 1, bitArraySize = 8\<rparr>
       ''Memory'' ''k1'' ''k1'']"
    by (simp add: processSSTFile_runs[of _ _ "[(''k1'', ''v'')]"] runs_of.simps leaf_v1)
  have tree: "buildLevel 2 8 1
     [Node [] \<lparr>bitArray = [False, False, False, False, False, True, False, False],
             numHashFunctions = 1, bitArraySize = 8\<rparr>
       ''Memory'' ''k1'' ''k1''] =
     Some (Inr (Node [] \<lparr>bitArray = [False, False, False, False, False, True, False, False],
             numHashFunctions = 1, bitArraySize = 8\<rparr>
       ''Memory'' ''k1'' ''k1''))"
    by (subst buildLevel.simps) simp
  have qry: "query
     \<lparr>root = Some (Node [] \<lparr>bitArray = [False, False, False, False, False, True, False, False],
             numHashFunctions = 1, bitArraySize = 8\<rparr>
       ''Memory'' ''k1'' ''k1''),
      ratio = 2, bloomSize = 8, treeNumHashFunctions = 1,
      leafNodes = [Node [] \<lparr>bitArray = [False, False, False, False, False, True, False, False],
             numHashFunctions = 1, bitArraySize = 8\<rparr>
       ''Memory'' ''k1'' ''k1'']\<rparr>
     ''v'' [] [] zero_globals
   = Inr ([], zero_globals\<lparr>gBloomCheckCount := 1\<rparr>)"
    by (simp add: query_def overlaps_def count_probe_def exists_v1 zero_globals_def Let_def)
  have spec: "map (\<lambda>p. filename (last p))
     (filter (list_all (passes ''v'' [] []))
        (root_to_leaf_paths
          (Node [] \<lparr>bitArray = [False, False, False, False, False, True, False, False],
             numHashFunctions = 1, bitArraySize = 8\<rparr>
       ''Memory'' ''k1'' ''k1'')))
   = [''Memory'']"
    by (simp add: passes_def exists_v1)
  from leaves tree qry spec show ?thesis by (intro conjI)
qed

text \<open>
  Claim C8, amended: for every tree that was built and is well formed (the nodes without
  children are those whose source tag is not \<open>''Memory''\<close>, and every filter has a size above
  zero and a bit array of that size), every value and every optional key range, \<open>query\<close>
  returns, in depth-first order, exactly the file paths of the leaves on the root-to-leaf
  paths every node of which overlaps the range and is filter-positive; and a node of the
  tree that fails either test prunes its subtree: its search adds no result and consults
  no filter below it (it changes the counters by at most its own probe).
\<close>

theorem query_accepted_paths:
  assumes "root tree = Some r" and "well_formed_tree r"
  shows "query tree v qStart qEnd g =
           Inr (map (\<lambda>p. filename (last p))
                  (filter (list_all (passes v qStart qEnd)) (root_to_leaf_paths r)),
                snd (search r v qStart qEnd ([], g))) \<and>
         (\<forall>n \<in> set (subnodes r). \<not> passes v qStart qEnd n \<longrightarrow>
            (\<forall>res h. search n v qStart qEnd (res, h) =
               (res, if overlaps n qStart qEnd then count_probe n h else h)))"
proof
  from assms(2) have "well_tagged r" by (simp add: well_formed_tree_def)
  from search_results[OF this, of v qStart qEnd "[]" g]
  have "fst (search r v qStart qEnd ([], g)) = query_spec r v qStart qEnd" by simp
  then have "search r v qStart qEnd ([], g) =
      (query_spec r v qStart qEnd, snd (search r v qStart qEnd ([], g)))"
    by (metis prod.collapse)
  with assms(1) show "query tree v qStart qEnd g =
           Inr (map (\<lambda>p. filename (last p))
                  (filter (list_all (passes v qStart qEnd)) (root_to_leaf_paths r)),
                snd (search r v qStart qEnd ([], g)))"
    by (simp add: query_def query_spec_def del: search.simps)
  show "\<forall>n \<in> set (subnodes r). \<not> passes v qStart qEnd n \<longrightarrow>
            (\<forall>res h. search n v qStart qEnd (res, h) =
               (res, if overlaps n qStart qEnd then count_probe n h else h))"
    using search_pruned[of v qStart qEnd] by blast
qed

theorem query_accepted_paths_witness:
  "root \<lparr>root = Some (Node [Node [] \<lparr>bitArray = [False, False, False, True, False, False, False, True],
              numHashFunctions = 2, bitArraySize = 8\<rparr> ''f'' ''k1'' ''k1'',
         Node [] \<lparr>bitArray = [False, False, False, False, False, True, True, False],
              numHashFunctions = 2, bitArraySize = 8\<rparr> ''f'' ''k2'' ''k2'']
        \<lparr>bitArray = [False, False, False, True, False, True, True, True],
              numHashFunctions = 2, bitArraySize = 8\<rparr> ''Memory'' ''k1'' ''k2''),
      ratio = 2, bloomSize = 8, treeNumHashFunctions = 2,
      leafNodes = [Node [] \<lparr>bitArray = [False, False, False, True, False, False, False, True],
              numHashFunctions = 2, bitArraySize = 8\<rparr> ''f'' ''k1'' ''k1'',
         Node [] \<lparr>bitArray = [False, False, False, False, False, True, True, False],
              numHashFunctions = 2, bitArraySize = 8\<rparr> ''f'' ''k2'' ''k2'']\<rparr>
     = Some (Node [Node [] \<lparr>bitArray = [False, False, False, True, False, False, False, True],
              numHashFunctions = 2, bitArraySize = 8\<rparr> ''f'' ''k1'' ''k1'',
         Node [] \<lparr>bitArray = [False, False, False, False, False, True, True, False],
              numHashFunctions = 2, bitArraySize = 8\<rparr> ''f'' ''k2'' ''k2'']
        \<lparr>bitArray = [False, False, False, True, False, True, True, True],
              numHashFunctions = 2, bitArraySize = 8\<rparr> ''Memory'' ''k1'' ''k2'') \<and>
   well_formed_tree
     (Node [Node [] \<lparr>bitArray = [False, False, False, True, False, False, False, True],
              numHashFunctions = 2, bitArraySize = 8\<rparr> ''f'' ''k1'' ''k1'',
         Node [] \<lparr>bitArray = [False, False, False, False, False, True, True, False],
              numHashFunctions = 2, bitArraySize = 8\<rparr> ''f'' ''k2'' ''k2'']
        \<lparr>bitArray = [False, False, False, True, False, True, True, True],
              numHashFunctions = 2, bitArraySize = 8\<rparr> ''Memory'' ''k1'' ''k2'') \<and>
   query
     \<lparr>root = Some (Node [Node [] \<lparr>bitArray = [False, False, False, True, False, False, False, True],
              numHashFunctions = 2, bitArraySize = 8\<rparr> ''f'' ''k1'' ''k1'',
         Node [] \<lparr>bitArray = [False, False, False, False, False, True, True, False],
              numHashFunctions = 2, bitArraySize = 8\<rparr> ''f'' ''k2'' ''k2'']
        \<lparr>bitArray = [False, False, False, True, False, True, True, True],
              numHashFunctions = 2, bitArraySize = 8\<rparr> ''Memory'' ''k1'' ''k2''),
      ratio = 2, bloomSize = 8, treeNumHashFunctions = 2,
      leafNodes = [Node [] \<lparr>bitArray = [False, False, False, True, False, False, False, True],
              numHashFunctions = 2, bitArraySize = 8\<rparr> ''f'' ''k1'' ''k1'',
         Node [] \<lparr>bitArray = [False, False, False, False, False, True, True, False],
              numHashFunctions = 2, bitArraySize = 8\<rparr> ''f'' ''k2'' ''k2'']\<rparr>
     ''v'' [] [] zero_globals
   = Inr ([''f''], zero_globals\<lparr>gBloomCheckCount := 3, gLeafBloomCheckCount := 2\<rparr>) \<and>
   \<not> passes ''v'' [] [] (Node [] \<lparr>bitArray = [False, False, False, True, False, False, False, True],
              numHashFunctions = 2, bitArraySize = 8\<rparr> ''f'' ''k1'' ''k1'') \<and>
   search (Node [] \<lparr>bitArray = [False, False, False, True, False, False, False, True],
              numHashFunctions = 2, bitArraySize = 8\<rparr> ''f'' ''k1'' ''k1'') ''v'' [] [] ([], zero_globals)
     = ([], zero_globals\<lparr>gBloomCheckCount := 1, gLeafBloomCheckCount := 1\<rparr>)"
proof -
  have h1: "root \<lparr>root = Some (Node [Node [] \<lparr>bitArray = [False, False, False, True, False, False, False, True],
              numHashFunctions = 2, bitArraySize = 8\<rparr> ''f'' ''k1'' ''k1'',
         Node [] \<lparr>bitArray = [False, False, False, False, False, True, True, False],
              numHashFunctions = 2, bitArraySize = 8\<rparr> ''f'' ''k2'' ''k2'']
        \<lparr>bitArray = [False, False, False, True, False, True, True, True],
              numHashFunctions = 2, bitArraySize = 8\<rparr> ''Memory'' ''k1'' ''k2''),
      ratio = 2, bloomSize = 8, treeNumHashFunctions = 2,
      leafNodes = [Node [] \<lparr>bitArray = [False, False, False, True, False, False, False, True],
              numHashFunctions = 2, bitArraySize = 8\<rparr> ''f'' ''k1'' ''k1'',
         Node [] \<lparr>bitArray = [False, False, False, False, False, True, True, False],
              numHashFunctions = 2, bitArraySize = 8\<rparr> ''f'' ''k2'' ''k2'']\<rparr>
     = Some (Node [Node [] \<lparr>bitArray = [False, False, False, True, False, False, False, True],
              numHashFunctions = 2, bitArraySize = 8\<rparr> ''f'' ''k1'' ''k1'',
         Node [] \<lparr>bitArray = [False, False, False, False, False, True, True, False],
              numHashFunctions = 2, bitArraySize = 8\<rparr> ''f'' ''k2'' ''k2'']
        \<lparr>bitArray = [False, False, False, True, False, True, True, True],
              numHashFunctions = 2, bitArraySize = 8\<rparr> ''Memory'' ''k1'' ''k2'')" by simp
  have h2: "well_formed_tree
     (Node [Node [] \<lparr>bitArray = [False, False, False, True, False, False, False, True],
              numHashFunctions = 2, bitArraySize = 8\<rparr> ''f'' ''k1'' ''k1'',
         Node [] \<lparr>bitArray = [False, False, False, False, False, True, True, False],
              numHashFunctions = 2, bitArraySize = 8\<rparr> ''f'' ''k2'' ''k2'']
        \<lparr>bitArray = [False, False, False, True, False, True, True, True],
              numHashFunctions = 2, bitArraySize = 8\<rparr> ''Memory'' ''k1'' ''k2'')"
    by (simp add: well_formed_tree_def well_tagged_def wf_filter_def)
  have h3: "\<not> passes ''v'' [] [] (Node [] \<lparr>bitArray = [False, False, False, True, False, False, False, True],
              numHashFunctions = 2, bitArraySize = 8\<rparr> ''f'' ''k1'' ''k1'')"
    by (simp add: passes_def BloomFilter_exists_def hash_v_8 upt_rec)
  from query_accepted_paths[OF h1 h2, of "''v''" "[]" "[]" zero_globals] h1 h2 h3
  show ?thesis
    by (simp add: overlaps_def count_probe_def zero_globals_def passes_def
        BloomFilter_exists_def hash_v_8 upt_rec Let_def)
qed

section \<open>File scans\<close>

text \<open>
  On a sorted file the scan returns the keys of the records with the value whose key lies
  within the bounds, an empty bound being no bound. The intersection loop computes the
  intersection of the key sets.
\<close>

lemma dropWhile_sorted_keys:
  "sorted (map fst xs) \<Longrightarrow>
     set (dropWhile (\<lambda>(key, val). key < a) xs) = {x \<in> set xs. a \<le> fst x}"
proof (induction xs)
  case Nil
  then show ?case by simp
next
  case (Cons x xs)
  show ?case
  proof (cases "fst x < a")
    case True
    with Cons show ?thesis by (auto simp: case_prod_beta)
  next
    case False
    with Cons.prems have "\<forall>y \<in> set xs. a \<le> fst y" by (auto simp: not_less)
    with False show ?thesis by (auto simp: case_prod_beta not_less)
  qed
qed

lemma takeWhile_sorted_keys:
  "sorted (map fst xs) \<Longrightarrow>
     set (takeWhile (\<lambda>(key, val). \<not> key > b) xs) = {x \<in> set xs. fst x \<le> b}"
proof (induction xs)
  case Nil
  then show ?case by simp
next
  case (Cons x xs)
  show ?case
  proof (cases "fst x \<le> b")
    case True
    with Cons show ?thesis by (auto simp: case_prod_beta not_less)
  next
    case False
    with Cons.prems have "\<forall>y \<in> set xs. \<not> fst y \<le> b" by (auto simp: not_le)
    with False show ?thesis by (auto simp: case_prod_beta not_less)
  qed
qed

lemma takeWhile_True: "takeWhile (\<lambda>x. True) xs = xs"
  by (induction xs) auto

lemma sorted_dropWhile_keys: "sorted (map fst xs) \<Longrightarrow> sorted (map fst (dropWhile P xs))"
  by (induction xs) auto

lemma scan_set:
  assumes "db f = Some records" and "sorted (map fst records)"
  shows "set (scanFileForKeysWithValue db f v a b) =
           {key. (key, v) \<in> set records \<and> (a = [] \<or> a \<le> key) \<and> (b = [] \<or> key \<le> b)}"
proof -
  let ?iter = "if a \<noteq> [] then dropWhile (\<lambda>(key, val). key < a) records else records"
  have it: "set ?iter = {x \<in> set records. a = [] \<or> a \<le> fst x}"
    using dropWhile_sorted_keys[OF assms(2), of a] by auto
  have srt: "sorted (map fst ?iter)" using assms(2) by (simp add: sorted_dropWhile_keys)
  have tk: "set (takeWhile (\<lambda>(key, val). \<not> (b \<noteq> [] \<and> key > b)) ?iter) =
              {x \<in> set ?iter. b = [] \<or> fst x \<le> b}"
  proof (cases "b = []")
    case True
    have "(\<lambda>(key :: string, val :: string). True) = (\<lambda>x. True)" by (simp add: fun_eq_iff)
    with True show ?thesis by (simp add: takeWhile_True)
  next
    case False
    then have "(\<lambda>(key, val). \<not> (b \<noteq> [] \<and> key > b)) = (\<lambda>(key, val :: string). \<not> key > b)"
      by (simp add: fun_eq_iff)
    with takeWhile_sorted_keys[OF srt, of b] False show ?thesis by simp
  qed
  show ?thesis
    using assms(1) it tk
    by (auto simp: scanFileForKeysWithValue_def Let_def image_iff)
qed

lemma scan_unopened: "db f = None \<Longrightarrow> scanFileForKeysWithValue db f v a b = []"
  by (simp add: scanFileForKeysWithValue_def)

lemma scan_widen:
  assumes "sorted_store db" and "key \<in> set (scanFileForKeysWithValue db f v a b)"
    and "gs = [] \<or> (a \<noteq> [] \<and> gs \<le> a)" and "ge = [] \<or> (b \<noteq> [] \<and> b \<le> ge)"
  shows "key \<in> set (scanFileForKeysWithValue db f v gs ge)"
proof (cases "db f")
  case None
  with assms(2) show ?thesis by (simp add: scan_unopened)
next
  case (Some records)
  with assms(1) have s: "sorted (map fst records)" by (auto simp: sorted_store_def)
  from assms(2,3,4) show ?thesis
    unfolding scan_set[of db f records, OF Some s] by auto
qed

lemma intersect_sets_set:
  "set (intersect_sets result keySets) = set result \<inter> (\<Inter>ks \<in> set keySets. set ks)"
proof (induction keySets arbitrary: result)
  case Nil
  then show ?case by simp
next
  case (Cons ks rest)
  show ?case
  proof (cases "filter (\<lambda>key. key \<in> set ks) result = []")
    case True
    then have "set result \<inter> set ks = {}" by (auto simp: filter_empty_conv)
    with True show ?thesis by (auto simp: Let_def)
  next
    case False
    with Cons[of "filter (\<lambda>key. key \<in> set ks) result"] show ?thesis
      by (auto simp: Let_def)
  qed
qed

lemma intersect_case_set:
  "set (fst (case map f ps of [] \<Rightarrow> ([], g1)
             | first # rest \<Rightarrow> (intersect_sets first rest, g1))) =
     (if ps = [] then {} else (\<Inter>p \<in> set ps. set (f p)))"
  by (cases ps) (auto simp: intersect_sets_set)

lemma final_scan_keys:
  "set (fst (finalSstScanAndIntersect db combo values g)) =
     (if zip (nodes combo) values = [] then {}
      else (\<Inter>p \<in> set (zip (nodes combo) values).
              set (scanFileForKeysWithValue db (filename (fst p)) (snd p)
                     (max (rangeStart combo) (startKey (fst p)))
                     (min (rangeEnd combo) (endKey (fst p))))))"
  unfolding finalSstScanAndIntersect_def Let_def case_prod_beta
  by (subst intersect_case_set) simp

lemma final_scan_counters:
  "snd (finalSstScanAndIntersect db combo values g) =
     g\<lparr>gSSTCheckCount := gSSTCheckCount g + length (nodes combo)\<rparr>"
  by (simp add: finalSstScanAndIntersect_def Let_def split: list.splits)

section \<open>Multi-column traversal\<close>

text \<open>
  The counters and the matches that the parts of a step leave alone, the shape of the
  combos of the next level, and soundness: a key that \<^verbatim>\<open>dfsMultiColumn\<close> adds is found, for
  every column, by the scan of a leaf file below the column's node.
\<close>

lemma check_roots_keeps:
  "globalfinalMatches (snd (check_roots nvs g)) = globalfinalMatches g \<and>
   gSSTCheckCount (snd (check_roots nvs g)) = gSSTCheckCount g \<and>
   gLeafBloomCheckCount (snd (check_roots nvs g)) = gLeafBloomCheckCount g"
  by (induction nvs g rule: check_roots.induct) (auto simp: Let_def)

lemma count_probe_keeps [simp]:
  "globalfinalMatches (count_probe c g) = globalfinalMatches g"
  "gSSTCheckCount (count_probe c g) = gSSTCheckCount g"
  by (simp_all add: count_probe_def Let_def)

lemma consider_node_keeps:
  "globalfinalMatches (snd (consider_node v ts te c acc)) = globalfinalMatches (snd acc) \<and>
   gSSTCheckCount (snd (consider_node v ts te c acc)) = gSSTCheckCount (snd acc)"
  by (simp add: consider_node_def Let_def)

lemma fold_consider_keeps:
  "globalfinalMatches (snd (fold (consider_node v ts te) cs acc)) = globalfinalMatches (snd acc) \<and>
   gSSTCheckCount (snd (fold (consider_node v ts te) cs acc)) = gSSTCheckCount (snd acc)"
  by (induction cs arbitrary: acc) (simp_all add: consider_node_keeps)

lemma build_candidates_keeps:
  "globalfinalMatches (snd (build_candidates nvs acc ts te g)) = globalfinalMatches g \<and>
   gSSTCheckCount (snd (build_candidates nvs acc ts te g)) = gSSTCheckCount g"
proof (induction nvs acc ts te g rule: build_candidates.induct)
  case (1 candidateOptions tightStart tightEnd g)
  then show ?case by simp
next
  case (2 node v rest candidateOptions tightStart tightEnd g)
  obtain cs g1 where f: "fold (consider_node v tightStart tightEnd) (expand node)
             (\<lparr>options = [], colMin = [], colMax = [], found = False\<rparr>, g) = (cs, g1)"
    by (cases "fold (consider_node v tightStart tightEnd) (expand node)
             (\<lparr>options = [], colMin = [], colMax = [], found = False\<rparr>, g)") auto
  from fold_consider_keeps[of v tightStart tightEnd "expand node"
      "(\<lparr>options = [], colMin = [], colMax = [], found = False\<rparr>, g)"] f
  have k: "globalfinalMatches g1 = globalfinalMatches g" "gSSTCheckCount g1 = gSSTCheckCount g"
    by simp_all
  show ?case
    using "2.IH"(1)[OF f[symmetric]] "2.IH"(2)[OF f[symmetric]] k f
    by (auto simp: Let_def)
qed

lemma backtrack_bounds:
  "combo \<in> set (backtrack cands chosen curS curE) \<Longrightarrow>
     curS \<le> rangeStart combo \<and> rangeEnd combo \<le> curE \<and>
     (cands \<noteq> [] \<longrightarrow> rangeStart combo \<le> rangeEnd combo) \<and>
     (\<exists>picks. nodes combo = chosen @ picks \<and> list_all2 (\<lambda>p opts. p \<in> set opts) picks cands \<and>
        (\<forall>p \<in> set picks. startKey p \<le> rangeStart combo \<and> rangeEnd combo \<le> endKey p))"
proof (induction cands arbitrary: chosen curS curE)
  case Nil
  then show ?case by simp
next
  case (Cons opts rest)
  then obtain cand where c: "cand \<in> set opts"
    and le: "max curS (startKey cand) \<le> min curE (endKey cand)"
    and m: "combo \<in> set (backtrack rest (chosen @ [cand]) (max curS (startKey cand))
                             (min curE (endKey cand)))"
    by (auto simp: Let_def split: if_splits)
  from Cons.IH[OF m] obtain picks where
    b: "max curS (startKey cand) \<le> rangeStart combo" "rangeEnd combo \<le> min curE (endKey cand)"
      "rest \<noteq> [] \<longrightarrow> rangeStart combo \<le> rangeEnd combo"
    and p: "nodes combo = (chosen @ [cand]) @ picks"
      "list_all2 (\<lambda>p opts. p \<in> set opts) picks rest"
      "\<forall>p \<in> set picks. startKey p \<le> rangeStart combo \<and> rangeEnd combo \<le> endKey p"
    by auto
  have ne: "rangeStart combo \<le> rangeEnd combo"
  proof (cases "rest = []")
    case True
    with m have "combo = \<lparr>nodes = chosen @ [cand], rangeStart = max curS (startKey cand),
                          rangeEnd = min curE (endKey cand)\<rparr>" by simp
    with le show ?thesis by simp
  next
    case False
    with b(3) show ?thesis by simp
  qed
  from b have "curS \<le> rangeStart combo" "rangeEnd combo \<le> curE"
    "startKey cand \<le> rangeStart combo" "rangeEnd combo \<le> endKey cand" by auto
  with ne c p show ?case
    by (intro conjI impI exI[of _ "cand # picks"]) auto
qed

lemma subnodes_expand: "p \<in> set (expand nd) \<Longrightarrow> set (subnodes p) \<subseteq> set (subnodes nd)"
  by (auto simp: expand_def dest: subnodes_child split: if_splits)

lemma dfs_step_nodes:
  assumes bc: "build_candidates (zip nds vals) [] s e g = (Some cands, g')"
    and bt: "combo \<in> set (backtrack cands [] s e)"
    and len: "length vals = length nds"
  shows "length (nodes combo) = length nds"
    and "\<forall>i < length nds. nodes combo ! i \<in> set (expand (nds ! i))"
    and "s \<le> rangeStart combo" and "rangeEnd combo \<le> e"
    and "\<forall>p \<in> set (nodes combo). startKey p \<le> rangeStart combo \<and> rangeEnd combo \<le> endKey p"
proof -
  from build_candidates_shape[OF bc]
  have l2: "list_all2 (\<lambda>opts nv. set opts \<subseteq> set (expand (fst nv))) cands (zip nds vals)"
    by simp
  from backtrack_bounds[OF bt] have l1: "list_all2 (\<lambda>p opts. p \<in> set opts) (nodes combo) cands"
    and b: "s \<le> rangeStart combo" "rangeEnd combo \<le> e"
      "\<forall>p \<in> set (nodes combo). startKey p \<le> rangeStart combo \<and> rangeEnd combo \<le> endKey p"
    by auto
  have l3: "list_all2 (\<lambda>p nv. p \<in> set (expand (fst nv))) (nodes combo) (zip nds vals)"
    by (rule list_all2_trans[OF _ l1 l2]) auto
  from l3 len show n: "length (nodes combo) = length nds" by (auto dest: list_all2_lengthD)
  show "\<forall>i < length nds. nodes combo ! i \<in> set (expand (nds ! i))"
  proof (intro allI impI)
    fix i assume i: "i < length nds"
    with n len list_all2_nthD[OF l3, of i] show "nodes combo ! i \<in> set (expand (nds ! i))" by simp
  qed
  from b show "s \<le> rangeStart combo" "rangeEnd combo \<le> e"
    "\<forall>p \<in> set (nodes combo). startKey p \<le> rangeStart combo \<and> rangeEnd combo \<le> endKey p"
    by auto
qed

lemma fold_matches_origin:
  assumes "\<And>nxt acc. nxt \<in> set combos \<Longrightarrow> key \<in> set (globalfinalMatches (f nxt acc)) \<Longrightarrow>
             key \<in> set (globalfinalMatches acc) \<or> Q nxt"
    and "key \<in> set (globalfinalMatches (fold f combos g))"
  shows "key \<in> set (globalfinalMatches g) \<or> (\<exists>nxt \<in> set combos. Q nxt)"
  using assms
proof (induction combos arbitrary: g)
  case Nil
  then show ?case by simp
next
  case (Cons c cs)
  from Cons.IH[of "f c g"] Cons.prems
  have "key \<in> set (globalfinalMatches (f c g)) \<or> (\<exists>nxt \<in> set cs. Q nxt)" by auto
  with Cons.prems(1)[of c g] show ?case by auto
qed

lemma Nil_least: "(x :: string) \<le> [] \<Longrightarrow> x = []"
  by (cases x) auto

lemma dfs_sound:
  shows "sorted_store db \<Longrightarrow> length vals = length (nodes combo) \<Longrightarrow> nodes combo \<noteq> [] \<Longrightarrow>
         combo_inv gs ge combo \<Longrightarrow>
         ge = [] \<or> gs \<noteq> [] \<or> (\<forall>nd \<in> set (nodes combo). starts_nonempty nd) \<Longrightarrow>
         key \<in> set (globalfinalMatches (dfsMultiColumn db vals combo isInitialCall g)) \<Longrightarrow>
         key \<in> set (globalfinalMatches g) \<or>
         (\<forall>i < length (nodes combo). dleaf_scan db gs ge (vals ! i) key (nodes combo ! i))"
proof (induction db vals combo isInitialCall g rule: dfsMultiColumn.induct)
  case (1 db vals combo isInitialCall g)
  note db = "1.prems"(1) and len = "1.prems"(2) and ne = "1.prems"(3) and inv = "1.prems"(4)
    and nonempty = "1.prems"(5) and key = "1.prems"(6)
  obtain ok g1 where cr:
    "(if isInitialCall then check_roots (zip (nodes combo) vals) g else (True, g)) = (ok, g1)"
    by (cases "if isInitialCall then check_roots (zip (nodes combo) vals) g else (True, g)") auto
  have g1: "globalfinalMatches g1 = globalfinalMatches g"
    using cr check_roots_keeps[of "zip (nodes combo) vals" g] by (auto split: if_splits)
  show ?case
  proof (cases "\<not> ok \<or> rangeStart combo > rangeEnd combo")
    case True
    with key cr g1 show ?thesis
      by (subst (asm) dfsMultiColumn.simps) (auto split: if_splits)
  next
    case False
    then have ok: "ok" and rngn: "\<not> rangeEnd combo < rangeStart combo" by auto
    then have rng: "rangeStart combo \<le> rangeEnd combo" by (simp add: not_less)
    show ?thesis
    proof (cases "list_all (\<lambda>nd. filename nd \<noteq> ''Memory'') (nodes combo)")
      case True
      obtain keys g2 where fs: "finalSstScanAndIntersect db combo vals g1 = (keys, g2)"
        by (cases "finalSstScanAndIntersect db combo vals g1") auto
      from final_scan_counters[of db combo vals g1] fs g1
      have g2: "globalfinalMatches g2 = globalfinalMatches g" by simp
      from key cr ok rngn True fs
      have "key \<in> set (globalfinalMatches g2) \<or> key \<in> set keys"
        by (subst (asm) dfsMultiColumn.simps) auto
      with g2 have "key \<in> set (globalfinalMatches g) \<or> key \<in> set keys" by simp
      moreover
      { assume k: "key \<in> set keys"
        have "\<forall>i < length (nodes combo). dleaf_scan db gs ge (vals ! i) key (nodes combo ! i)"
        proof (intro allI impI)
          fix i assume i: "i < length (nodes combo)"
          let ?nd = "nodes combo ! i"
          from i len have mem: "(?nd, vals ! i) \<in> set (zip (nodes combo) vals)"
            by (auto simp: set_zip)
          then have nz: "zip (nodes combo) vals \<noteq> []" by auto
          from k fs final_scan_keys[of db combo vals g1] nz mem
          have sc: "key \<in> set (scanFileForKeysWithValue db (filename ?nd) (vals ! i)
                     (max (rangeStart combo) (startKey ?nd))
                     (min (rangeEnd combo) (endKey ?nd)))" by fastforce
          from i have nd: "?nd \<in> set (nodes combo)" by simp
          with inv have b: "startKey ?nd \<le> rangeStart combo" "rangeEnd combo \<le> endKey ?nd"
            by (auto simp: combo_inv_def)
          then have mx: "max (rangeStart combo) (startKey ?nd) = rangeStart combo"
            and mn: "min (rangeEnd combo) (endKey ?nd) = rangeEnd combo" by auto
          have lo: "gs = [] \<or> (rangeStart combo \<noteq> [] \<and> gs \<le> rangeStart combo)"
            using inv by (auto simp: combo_inv_def dest: Nil_least)
          have hi: "ge = [] \<or> (rangeEnd combo \<noteq> [] \<and> rangeEnd combo \<le> ge)"
          proof (cases "ge = []")
            case True
            then show ?thesis by simp
          next
            case False
            have "rangeStart combo \<noteq> []"
            proof (cases "gs \<noteq> []")
              case True
              with lo show ?thesis by simp
            next
              case gsn: False
              with nonempty False nd have "starts_nonempty ?nd" by auto
              with self_in_subnodes[of ?nd] have "startKey ?nd \<noteq> []"
                by (auto simp: starts_nonempty_def)
              with b(1) show ?thesis by (auto dest: Nil_least)
            qed
            with rng have "rangeEnd combo \<noteq> []" by (auto dest: Nil_least)
            with inv False show ?thesis by (auto simp: combo_inv_def)
          qed
          from sc have "key \<in> set (scanFileForKeysWithValue db (filename ?nd) (vals ! i)
                     (rangeStart combo) (rangeEnd combo))" by (simp only: mx mn)
          from scan_widen[OF db this lo hi]
          have "key \<in> set (scanFileForKeysWithValue db (filename ?nd) (vals ! i) gs ge)" .
          moreover from True nd have "filename ?nd \<noteq> ''Memory''" by (auto simp: list_all_iff)
          ultimately show "dleaf_scan db gs ge (vals ! i) key ?nd"
            using self_in_subnodes[of ?nd] by (auto simp: dleaf_scan_def)
        qed }
      ultimately show ?thesis by blast
    next
      case False
      obtain oc g2 where bc: "build_candidates (zip (nodes combo) vals) []
                    (rangeStart combo) (rangeEnd combo) g1 = (oc, g2)"
        by (cases "build_candidates (zip (nodes combo) vals) []
                    (rangeStart combo) (rangeEnd combo) g1") auto
      from build_candidates_keeps[of "zip (nodes combo) vals" "[]" "rangeStart combo"
          "rangeEnd combo" g1] bc g1
      have g2: "globalfinalMatches g2 = globalfinalMatches g" by simp
      show ?thesis
      proof (cases oc)
        case None
        with key cr ok rngn False bc g2 show ?thesis
          by (subst (asm) dfsMultiColumn.simps) auto
      next
        case (Some cands)
        let ?combos = "backtrack cands [] (rangeStart combo) (rangeEnd combo)"
        from key cr ok rngn False bc Some
        have kf: "key \<in> set (globalfinalMatches
                    (fold (\<lambda>nxt acc. dfsMultiColumn db vals nxt False acc) ?combos g2))"
          by (subst (asm) dfsMultiColumn.simps) auto
        have step: "key \<in> set (globalfinalMatches acc) \<or>
                (\<forall>i < length (nodes combo). dleaf_scan db gs ge (vals ! i) key (nodes combo ! i))"
          if nx: "nxt \<in> set ?combos"
            and kn: "key \<in> set (globalfinalMatches (dfsMultiColumn db vals nxt False acc))"
          for nxt acc
        proof -
          from bc Some have bc': "build_candidates (zip (nodes combo) vals) []
                    (rangeStart combo) (rangeEnd combo) g1 = (Some cands, g2)" by simp
          note sn = dfs_step_nodes[OF bc' nx len]
          have l: "length vals = length (nodes nxt)" using sn(1) len by simp
          have n: "nodes nxt \<noteq> []" using sn(1) ne by auto
          have ci: "combo_inv gs ge nxt"
            using inv sn(3,4,5) by (auto simp: combo_inv_def intro: order_trans)
          have sne: "ge = [] \<or> gs \<noteq> [] \<or> (\<forall>nd \<in> set (nodes nxt). starts_nonempty nd)"
          proof (cases "ge = [] \<or> gs \<noteq> []")
            case True
            then show ?thesis by blast
          next
            case no: False
            with nonempty have all: "\<forall>nd \<in> set (nodes combo). starts_nonempty nd" by blast
            have "\<forall>nd \<in> set (nodes nxt). starts_nonempty nd"
            proof
              fix nd assume "nd \<in> set (nodes nxt)"
              then obtain i where i: "i < length (nodes nxt)" "nd = nodes nxt ! i"
                by (auto simp: in_set_conv_nth)
              with sn(1,2) have "nd \<in> set (expand (nodes combo ! i))" by simp
              then have sub: "set (subnodes nd) \<subseteq> set (subnodes (nodes combo ! i))"
                by (rule subnodes_expand)
              from i(1) sn(1) have "nodes combo ! i \<in> set (nodes combo)" by simp
              with all have "starts_nonempty (nodes combo ! i)" by blast
              with sub show "starts_nonempty nd" unfolding starts_nonempty_def by blast
            qed
            then show ?thesis by blast
          qed
          from cr ok have e1: "(ok, g1) = (if isInitialCall
              then check_roots (zip (nodes combo) vals) g else (True, g))" by simp
          from ok have nok: "\<not> \<not> ok" by simp
          from "1.IH"[OF e1 nok rngn False bc[symmetric] Some nx db l n ci sne kn]
          have "key \<in> set (globalfinalMatches acc) \<or>
                (\<forall>i < length (nodes nxt). dleaf_scan db gs ge (vals ! i) key (nodes nxt ! i))" .
          moreover
          { assume a: "\<forall>i < length (nodes nxt). dleaf_scan db gs ge (vals ! i) key (nodes nxt ! i)"
            have "\<forall>i < length (nodes combo). dleaf_scan db gs ge (vals ! i) key (nodes combo ! i)"
            proof (intro allI impI)
              fix i assume i: "i < length (nodes combo)"
              with sn(1,2) have "nodes nxt ! i \<in> set (expand (nodes combo ! i))" by simp
              then have sub: "set (subnodes (nodes nxt ! i)) \<subseteq> set (subnodes (nodes combo ! i))"
                by (rule subnodes_expand)
              from a i sn(1) have "dleaf_scan db gs ge (vals ! i) key (nodes nxt ! i)" by simp
              with sub show "dleaf_scan db gs ge (vals ! i) key (nodes combo ! i)"
                unfolding dleaf_scan_def by blast
            qed }
          ultimately show ?thesis by blast
        qed
        from fold_matches_origin[of ?combos key "\<lambda>nxt acc. dfsMultiColumn db vals nxt False acc"
            "\<lambda>nxt. \<forall>i < length (nodes combo). dleaf_scan db gs ge (vals ! i) key (nodes combo ! i)"
            g2, OF step kf] g2
        show ?thesis by auto
      qed
    qed
  qed
qed

lemma check_roots_char:
  "check_roots nvs g =
     (list_all root_positive nvs,
      g\<lparr>gBloomCheckCount := gBloomCheckCount g +
           (if list_all root_positive nvs then length nvs
            else length (takeWhile root_positive nvs) + 1)\<rparr>)"
  by (induction nvs g rule: check_roots.induct) (auto simp: Let_def root_positive_def)

lemma fold_max_start:
  "s0 \<le> fold (\<lambda>r s. max s (startKey r)) rs s0 \<and>
   (\<forall>r \<in> set rs. startKey r \<le> fold (\<lambda>r s. max s (startKey r)) rs s0)"
proof (induction rs arbitrary: s0)
  case Nil
  then show ?case by simp
next
  case (Cons r rs)
  from Cons[of "max s0 (startKey r)"] show ?case by (auto simp: max_def intro: order_trans)
qed

lemma fold_min_end:
  "fold (\<lambda>r e. min e (endKey r)) rs e0 \<le> e0 \<and>
   (\<forall>r \<in> set rs. fold (\<lambda>r e. min e (endKey r)) rs e0 \<le> endKey r)"
proof (induction rs arbitrary: e0)
  case Nil
  then show ?case by simp
next
  case (Cons r rs)
  from Cons[of "min e0 (endKey r)"] show ?case by (auto simp: min_def intro: order_trans)
qed

lemma query_unfold:
  assumes "length trees = length vals" and "trees \<noteq> []"
    and "\<not> list_ex (\<lambda>t. root t = None) trees"
  shows "multiColumnQueryHierarchical db trees vals gs ge g =
           Inr (globalfinalMatches (dfsMultiColumn db vals (start_combo trees gs ge) True
                                      (reset_globals g)),
                dfsMultiColumn db vals (start_combo trees gs ge) True (reset_globals g))"
proof -
  from assms(1,2) have "vals \<noteq> []" by auto
  with assms show ?thesis
    by (simp add: multiColumnQueryHierarchical_def start_combo_def reset_globals_def Let_def)
qed

lemma start_combo_inv: "combo_inv gs ge (start_combo trees gs ge)"
  using fold_max_start[of "if gs = [] then startKey (hd (map (\<lambda>t. the (root t)) trees)) else gs"
          "map (\<lambda>t. the (root t)) trees"]
        fold_min_end[of "map (\<lambda>t. the (root t)) trees"
          "if ge = [] then endKey (hd (map (\<lambda>t. the (root t)) trees)) else ge"]
  by (auto simp: combo_inv_def start_combo_def)

lemma dfs_root_miss:
  assumes "\<not> list_all root_positive (zip (nodes combo) vals)"
  shows "dfsMultiColumn db vals combo True g =
           g\<lparr>gBloomCheckCount := gBloomCheckCount g +
                length (takeWhile root_positive (zip (nodes combo) vals)) + 1\<rparr>"
  using assms by (subst dfsMultiColumn.simps) (simp add: check_roots_char)

subsection \<open>Claim C5: the root check\<close>

text \<open>
  Claim C5, as stated: at initialisation each column's root filter is consulted exactly
  once against the column's value, and if any root tests negative the query returns the
  empty result without any file scan.

  The first part fails when a root tests negative: the loop returns at the first miss
  and the roots of the later columns are not consulted. With two columns whose first
  root misses, the query ends with one filter consultation, not two.
\<close>

theorem root_check_short_circuit_counterexample:
  "multiColumnQueryHierarchical no_ssts
     [\<lparr>root = Some (Node [] (new_BloomFilter 8 1) ''f'' ''k1'' ''k3''), ratio = 3, bloomSize = 8,
       treeNumHashFunctions = 1, leafNodes = [Node [] (new_BloomFilter 8 1) ''f'' ''k1'' ''k3'']\<rparr>,
      \<lparr>root = Some (Node [] (new_BloomFilter 8 1) ''g'' ''k1'' ''k3''), ratio = 3, bloomSize = 8,
       treeNumHashFunctions = 1, leafNodes = [Node [] (new_BloomFilter 8 1) ''g'' ''k1'' ''k3'']\<rparr>]
     [''x'', ''x''] [] [] zero_globals
   = Inr ([], zero_globals\<lparr>gBloomCheckCount := 1\<rparr>)"
  by (simp add: multiColumnQueryHierarchical_def dfsMultiColumn.simps zero_globals_def
      BloomFilter_exists_def new_BloomFilter_def hash_x_8 upt_rec Let_def)

lemma takeWhile_shorter: "\<not> list_all P xs \<Longrightarrow> length (takeWhile P xs) < length xs"
  by (induction xs) auto

text \<open>
  Claim C5, amended: for a well-shaped query over built trees whose root filters are well
  formed (a size above zero and a bit array of that size, so that \<open>exists\<close> is defined on
  them), if every root tests positive the root check consults each root exactly once (it
  adds the number of columns to the counter); if some root tests negative, the roots are
  consulted in column order up to and including the first negative one, each once, and the
  query returns the empty result with that many filter consultations, no leaf consultation
  and no file scan.
\<close>

theorem root_check_outcome:
  assumes "length trees = length vals" and "trees \<noteq> []"
    and "\<not> list_ex (\<lambda>t. root t = None) trees"
    and "\<forall>t \<in> set trees. wf_filter (bloom (the (root t)))"
  shows "(list_all root_positive (zip (map (\<lambda>t. the (root t)) trees) vals) \<longrightarrow>
            check_roots (zip (map (\<lambda>t. the (root t)) trees) vals) g =
              (True, g\<lparr>gBloomCheckCount := gBloomCheckCount g + length trees\<rparr>)) \<and>
         (\<not> list_all root_positive (zip (map (\<lambda>t. the (root t)) trees) vals) \<longrightarrow>
            length (takeWhile root_positive (zip (map (\<lambda>t. the (root t)) trees) vals))
              < length trees \<and>
            multiColumnQueryHierarchical db trees vals gs ge g =
              Inr ([], g\<lparr>gBloomCheckCount :=
                           length (takeWhile root_positive
                                     (zip (map (\<lambda>t. the (root t)) trees) vals)) + 1,
                         gLeafBloomCheckCount := 0, gSSTCheckCount := 0,
                         globalfinalMatches := []\<rparr>))"
proof (intro conjI impI)
  let ?nvs = "zip (map (\<lambda>t. the (root t)) trees) vals"
  from assms(1) have len: "length ?nvs = length trees" by simp
  { assume "list_all root_positive ?nvs"
    then show "check_roots ?nvs g = (True, g\<lparr>gBloomCheckCount := gBloomCheckCount g + length trees\<rparr>)"
      using assms(1) by (simp add: check_roots_char) }
  assume miss: "\<not> list_all root_positive ?nvs"
  then have "length (takeWhile root_positive ?nvs) < length ?nvs" by (rule takeWhile_shorter)
  with len show "length (takeWhile root_positive ?nvs) < length trees" by simp
  from miss have m: "\<not> list_all root_positive (zip (nodes (start_combo trees gs ge)) vals)"
    by (simp add: start_combo_def)
  show "multiColumnQueryHierarchical db trees vals gs ge g =
              Inr ([], g\<lparr>gBloomCheckCount := length (takeWhile root_positive ?nvs) + 1,
                         gLeafBloomCheckCount := 0, gSSTCheckCount := 0,
                         globalfinalMatches := []\<rparr>)"
    unfolding query_unfold[OF assms(1,2,3)] dfs_root_miss[OF m]
    by (simp add: reset_globals_def start_combo_def)
qed

theorem root_check_outcome_witness:
  "length [\<lparr>root = Some (Node [] (new_BloomFilter 8 1) ''f'' ''k1'' ''k3''), ratio = 3,
            bloomSize = 8, treeNumHashFunctions = 1,
            leafNodes = [Node [] (new_BloomFilter 8 1) ''f'' ''k1'' ''k3'']\<rparr>] = length [''x''] \<and>
   \<not> list_ex (\<lambda>t. root t = None)
       [\<lparr>root = Some (Node [] (new_BloomFilter 8 1) ''f'' ''k1'' ''k3''), ratio = 3,
            bloomSize = 8, treeNumHashFunctions = 1,
            leafNodes = [Node [] (new_BloomFilter 8 1) ''f'' ''k1'' ''k3'']\<rparr>] \<and>
   wf_filter (bloom (Node [] (new_BloomFilter 8 1) ''f'' ''k1'' ''k3'')) \<and>
   \<not> list_all root_positive [(Node [] (new_BloomFilter 8 1) ''f'' ''k1'' ''k3'', ''x'')] \<and>
   multiColumnQueryHierarchical no_ssts
     [\<lparr>root = Some (Node [] (new_BloomFilter 8 1) ''f'' ''k1'' ''k3''), ratio = 3,
            bloomSize = 8, treeNumHashFunctions = 1,
            leafNodes = [Node [] (new_BloomFilter 8 1) ''f'' ''k1'' ''k3'']\<rparr>]
     [''x''] [] [] zero_globals
   = Inr ([], zero_globals\<lparr>gBloomCheckCount := 1\<rparr>)"
proof -
  have h1: "length [\<lparr>root = Some (Node [] (new_BloomFilter 8 1) ''f'' ''k1'' ''k3''), ratio = 3,
            bloomSize = 8, treeNumHashFunctions = 1,
            leafNodes = [Node [] (new_BloomFilter 8 1) ''f'' ''k1'' ''k3'']\<rparr>] = length [''x'']"
    by simp
  have h2: "[\<lparr>root = Some (Node [] (new_BloomFilter 8 1) ''f'' ''k1'' ''k3''), ratio = 3,
            bloomSize = 8, treeNumHashFunctions = 1,
            leafNodes = [Node [] (new_BloomFilter 8 1) ''f'' ''k1'' ''k3'']\<rparr>] \<noteq> []" by simp
  have h3: "\<not> list_ex (\<lambda>t. root t = None)
       [\<lparr>root = Some (Node [] (new_BloomFilter 8 1) ''f'' ''k1'' ''k3''), ratio = 3,
            bloomSize = 8, treeNumHashFunctions = 1,
            leafNodes = [Node [] (new_BloomFilter 8 1) ''f'' ''k1'' ''k3'']\<rparr>]" by simp
  have h4: "\<not> list_all root_positive [(Node [] (new_BloomFilter 8 1) ''f'' ''k1'' ''k3'', ''x'')]"
    by (simp add: root_positive_def BloomFilter_exists_def new_BloomFilter_def hash_x_8 upt_rec)
  have h5: "wf_filter (bloom (Node [] (new_BloomFilter 8 1) ''f'' ''k1'' ''k3''))"
    by (simp add: wf_filter_def new_BloomFilter_def)
  then have h5': "\<forall>t \<in> set [\<lparr>root = Some (Node [] (new_BloomFilter 8 1) ''f'' ''k1'' ''k3''), ratio = 3,
            bloomSize = 8, treeNumHashFunctions = 1,
            leafNodes = [Node [] (new_BloomFilter 8 1) ''f'' ''k1'' ''k3'']\<rparr>].
      wf_filter (bloom (the (root t)))" by simp
  from root_check_outcome[OF h1 h2 h3 h5', of zero_globals no_ssts "[]" "[]"] h1 h3 h4 h5
  show ?thesis by (simp add: zero_globals_def)
qed

subsection \<open>Claim C3: range pruning\<close>

text \<open>
  Claim C3: for every multi-column query with non-empty global bounds over sorted files,
  every returned key lies within the global bounds; and a file scan with non-empty bounds
  collects only keys within its bounds.
\<close>

theorem range_pruning_sound:
  assumes "globalStart \<noteq> []" and "globalEnd \<noteq> []" and "sorted_store db"
    and "multiColumnQueryHierarchical db trees vals globalStart globalEnd g = Inr (keys, g')"
  shows "(\<forall>key \<in> set keys. globalStart \<le> key \<and> key \<le> globalEnd) \<and>
         (\<forall>f v a b. a \<noteq> [] \<longrightarrow> b \<noteq> [] \<longrightarrow>
            (\<forall>key \<in> set (scanFileForKeysWithValue db f v a b). a \<le> key \<and> key \<le> b))"
proof
  have scan: "a \<le> key \<and> key \<le> b"
    if "a \<noteq> []" "b \<noteq> []" "key \<in> set (scanFileForKeysWithValue db f v a b)" for f v a b key
  proof (cases "db f")
    case None
    with that show ?thesis by (simp add: scan_unopened)
  next
    case (Some records)
    with assms(3) have "sorted (map fst records)" by (auto simp: sorted_store_def)
    from scan_set[of db f records, OF Some this] that show ?thesis by auto
  qed
  then show "\<forall>f v a b. a \<noteq> [] \<longrightarrow> b \<noteq> [] \<longrightarrow>
            (\<forall>key \<in> set (scanFileForKeysWithValue db f v a b). a \<le> key \<and> key \<le> b)"
    by blast
  show "\<forall>key \<in> set keys. globalStart \<le> key \<and> key \<le> globalEnd"
  proof (cases "length trees = 0 \<or> length trees \<noteq> length vals")
    case True
    with assms(4) show ?thesis by (auto simp: multiColumnQueryHierarchical_def)
  next
    case False
    then have sh: "length trees = length vals" "trees \<noteq> []" by auto
    with assms(4) have nn: "\<not> list_ex (\<lambda>t. root t = None) trees"
      by (auto simp: multiColumnQueryHierarchical_def split: if_splits)
    let ?c = "start_combo trees globalStart globalEnd"
    from assms(4) have keys: "keys = globalfinalMatches (dfsMultiColumn db vals ?c True (reset_globals g))"
      unfolding query_unfold[OF sh nn] by auto
    have l: "length vals = length (nodes ?c)" using sh by (simp add: start_combo_def)
    have n: "nodes ?c \<noteq> []" using sh by (simp add: start_combo_def)
    show ?thesis
    proof
      fix key assume "key \<in> set keys"
      with keys have k: "key \<in> set (globalfinalMatches (dfsMultiColumn db vals ?c True (reset_globals g)))"
        by simp
      from dfs_sound[OF assms(3) l n start_combo_inv _ k] assms(1)
      have "\<forall>i < length (nodes ?c). dleaf_scan db globalStart globalEnd (vals ! i) key (nodes ?c ! i)"
        by (simp add: reset_globals_def)
      with n have "dleaf_scan db globalStart globalEnd (vals ! 0) key (nodes ?c ! 0)" by auto
      then obtain l where "key \<in> set (scanFileForKeysWithValue db (filename l) (vals ! 0)
                              globalStart globalEnd)" by (auto simp: dleaf_scan_def)
      from scan[OF assms(1,2) this] show "globalStart \<le> key \<and> key \<le> globalEnd" .
    qed
  qed
qed

lemma sorted_store_single:
  "sorted (map fst records) \<Longrightarrow> sorted_store (no_ssts(f := Some records))"
  by (simp add: sorted_store_def no_ssts_def)

theorem range_pruning_sound_witness:
  "''k2'' \<noteq> [] \<and> ''k3'' \<noteq> [] \<and>
   sorted_store (no_ssts(''f'' := Some [(''k1'', ''v''), (''k2'', ''w''), (''k3'', ''v''), (''k4'', ''v'')])) \<and>
   multiColumnQueryHierarchical
     (no_ssts(''f'' := Some [(''k1'', ''v''), (''k2'', ''w''), (''k3'', ''v''), (''k4'', ''v'')]))
     [\<lparr>root = Some (Node [] (new_BloomFilter 8 0) ''f'' ''k1'' ''k4''), ratio = 3,
       bloomSize = 8, treeNumHashFunctions = 0,
       leafNodes = [Node [] (new_BloomFilter 8 0) ''f'' ''k1'' ''k4'']\<rparr>]
     [''v''] ''k2'' ''k3'' zero_globals
     = Inr ([''k3''], zero_globals\<lparr>gBloomCheckCount := 1, gSSTCheckCount := 1,
                               globalfinalMatches := [''k3'']\<rparr>) \<and>
   ''k2'' \<le> ''k3'' \<and> ''k3'' \<le> ''k3''"
proof -
  have h1: "''k2'' \<noteq> []" and h2: "''k3'' \<noteq> []" by simp_all
  have h3: "sorted_store (no_ssts(''f'' := Some [(''k1'', ''v''), (''k2'', ''w''), (''k3'', ''v''), (''k4'', ''v'')]))"
    by (rule sorted_store_single) simp
  have h4: "multiColumnQueryHierarchical
     (no_ssts(''f'' := Some [(''k1'', ''v''), (''k2'', ''w''), (''k3'', ''v''), (''k4'', ''v'')]))
     [\<lparr>root = Some (Node [] (new_BloomFilter 8 0) ''f'' ''k1'' ''k4''), ratio = 3,
       bloomSize = 8, treeNumHashFunctions = 0,
       leafNodes = [Node [] (new_BloomFilter 8 0) ''f'' ''k1'' ''k4'']\<rparr>]
     [''v''] ''k2'' ''k3'' zero_globals
     = Inr ([''k3''], zero_globals\<lparr>gBloomCheckCount := 1, gSSTCheckCount := 1,
                               globalfinalMatches := [''k3'']\<rparr>)"
    by (simp add: multiColumnQueryHierarchical_def dfsMultiColumn.simps zero_globals_def
        BloomFilter_exists_def new_BloomFilter_def finalSstScanAndIntersect_def
        scanFileForKeysWithValue_def Let_def)
  from range_pruning_sound[OF h1 h2 h3 h4] h1 h2 h3 h4 show ?thesis by simp
qed

section \<open>Multi-column query: the intersection of the column scans\<close>

text \<open>
  The traversal misses no key that is within reach of every node of a combo: the candidate
  lists keep every child that is within reach, the backtracking visits every choice of
  candidates whose joint range contains the key, and the final scan of a choice of leaves
  finds it.
\<close>

lemma hit_eq:
  "hit db v key nd \<longleftrightarrow>
     startKey nd \<le> key \<and> key \<le> endKey nd \<and> BloomFilter_exists (bloom nd) v \<and>
     (if filename nd \<noteq> ''Memory''
      then (case db (filename nd) of None \<Rightarrow> False | Some records \<Rightarrow> (key, v) \<in> set records)
      else (\<exists>c \<in> set (children nd). hit db v key c))"
  by (cases nd) simp

lemma consider_node_step:
  assumes "state_ok st"
  shows "state_ok (fst (consider_node v ts te c (st, g))) \<and>
         set (options st) \<subseteq> set (options (fst (consider_node v ts te c (st, g)))) \<and>
         (accepts v ts te c \<longrightarrow> c \<in> set (options (fst (consider_node v ts te c (st, g)))))"
  using assms
  by (auto simp: consider_node_def state_ok_def accepts_def Let_def min_def max_def
           intro: order_trans)

lemma fold_consider_accepts:
  assumes "state_ok st"
  shows "state_ok (fst (fold (consider_node v ts te) xs (st, g))) \<and>
         set (options st) \<subseteq> set (options (fst (fold (consider_node v ts te) xs (st, g)))) \<and>
         (\<forall>c \<in> set xs. accepts v ts te c \<longrightarrow>
            c \<in> set (options (fst (fold (consider_node v ts te) xs (st, g)))))"
  using assms
proof (induction xs arbitrary: st g)
  case Nil
  then show ?case by simp
next
  case (Cons x xs)
  obtain st1 g1 where s: "consider_node v ts te x (st, g) = (st1, g1)"
    by (cases "consider_node v ts te x (st, g)") auto
  from consider_node_step[OF Cons.prems, of v ts te x g] s
  have 1: "state_ok st1" "set (options st) \<subseteq> set (options st1)"
    "accepts v ts te x \<longrightarrow> x \<in> set (options st1)" by auto
  from Cons.IH[OF 1(1), of g1] 1 s show ?case by auto
qed

lemma build_candidates_complete:
  assumes "list_all2 (\<lambda>nv c. c \<in> set (expand (fst nv)) \<and> startKey c \<le> key \<and> key \<le> endKey c \<and>
                             BloomFilter_exists (bloom c) (snd nv)) nvs cs"
    and "ts \<le> key" and "key \<le> te"
  shows "\<exists>cands g'. build_candidates nvs acc ts te g = (Some (acc @ cands), g') \<and>
                    list_all2 (\<lambda>c opts. c \<in> set opts) cs cands"
  using assms
proof (induction nvs arbitrary: cs acc ts te g)
  case Nil
  then show ?case by simp
next
  case (Cons nv rest)
  obtain node v where nv: "nv = (node, v)" by (cases nv) auto
  from Cons.prems(1) nv obtain c cs' where cs: "cs = c # cs'"
    and c: "c \<in> set (expand node)" "startKey c \<le> key" "key \<le> endKey c"
      "BloomFilter_exists (bloom c) v"
    and rest: "list_all2 (\<lambda>nv c. c \<in> set (expand (fst nv)) \<and> startKey c \<le> key \<and>
                 key \<le> endKey c \<and> BloomFilter_exists (bloom c) (snd nv)) rest cs'"
    by (auto simp: list_all2_Cons1)
  obtain st g1 where f: "fold (consider_node v ts te) (expand node)
             (\<lparr>options = [], colMin = [], colMax = [], found = False\<rparr>, g) = (st, g1)"
    by (cases "fold (consider_node v ts te) (expand node)
             (\<lparr>options = [], colMin = [], colMax = [], found = False\<rparr>, g)") auto
  have acc: "accepts v ts te c"
    using c Cons.prems(2,3) by (auto simp: accepts_def not_less intro: order_trans)
  have "state_ok \<lparr>options = [], colMin = [], colMax = [], found = False\<rparr>"
    by (simp add: state_ok_def)
  from fold_consider_accepts[OF this, of v ts te "expand node" g] f acc c(1)
  have st: "state_ok st" "c \<in> set (options st)" by auto
  then have fnd: "found st" and b: "colMin st \<le> startKey c" "endKey c \<le> colMax st"
    by (auto simp: state_ok_def)
  show ?case
  proof (cases "rest \<noteq> []")
    case True
    let ?ts = "max ts (colMin st)" and ?te = "min te (colMax st)"
    from b c Cons.prems(2,3) have k: "?ts \<le> key" "key \<le> ?te" by (auto intro: order_trans)
    then have nlt: "\<not> ?ts > ?te" by (auto simp: not_less intro: order_trans)
    from Cons.IH[OF rest k, of "acc @ [options st]" g1]
    obtain cands g' where r: "build_candidates rest (acc @ [options st]) ?ts ?te g1
        = (Some ((acc @ [options st]) @ cands), g')"
      "list_all2 (\<lambda>c opts. c \<in> set opts) cs' cands" by auto
    from r st(2) True fnd nlt f show ?thesis
      unfolding nv cs by (intro exI[of _ "options st # cands"] exI[of _ g']) (simp add: Let_def)
  next
    case False
    from Cons.IH[OF rest Cons.prems(2,3), of "acc @ [options st]" g1]
    obtain cands g' where r: "build_candidates rest (acc @ [options st]) ts te g1
        = (Some ((acc @ [options st]) @ cands), g')"
      "list_all2 (\<lambda>c opts. c \<in> set opts) cs' cands" by auto
    from r st(2) False fnd f show ?thesis
      unfolding nv cs by (intro exI[of _ "options st # cands"] exI[of _ g']) (simp add: Let_def)
  qed
qed

lemma backtrack_complete:
  "list_all2 (\<lambda>c opts. c \<in> set opts) cs cands \<Longrightarrow>
   \<forall>c \<in> set cs. startKey c \<le> key \<and> key \<le> endKey c \<Longrightarrow>
   curS \<le> key \<Longrightarrow> key \<le> curE \<Longrightarrow>
     \<exists>combo \<in> set (backtrack cands chosen curS curE).
        nodes combo = chosen @ cs \<and> rangeStart combo \<le> key \<and> key \<le> rangeEnd combo"
proof (induction cands arbitrary: cs chosen curS curE)
  case Nil
  from Nil.prems(1) have "cs = []" by simp
  with Nil.prems show ?case by simp
next
  case (Cons opts rest)
  from Cons.prems(1) obtain c cs' where cs: "cs = c # cs'" and c: "c \<in> set opts"
    and rest: "list_all2 (\<lambda>c opts. c \<in> set opts) cs' rest"
    by (auto simp: list_all2_Cons2)
  from Cons.prems(2) cs have cb: "startKey c \<le> key" "key \<le> endKey c"
    and cs'b: "\<forall>c \<in> set cs'. startKey c \<le> key \<and> key \<le> endKey c" by auto
  let ?ns = "max curS (startKey c)" and ?ne = "min curE (endKey c)"
  from cb Cons.prems(3,4) have k: "?ns \<le> key" "key \<le> ?ne" by auto
  then have le: "?ns \<le> ?ne" by (rule order_trans)
  from Cons.IH[OF rest cs'b k, of "chosen @ [c]"]
  obtain combo where combo: "combo \<in> set (backtrack rest (chosen @ [c]) ?ns ?ne)"
    "nodes combo = (chosen @ [c]) @ cs'" "rangeStart combo \<le> key" "key \<le> rangeEnd combo"
    by auto
  from combo(1) c le have "combo \<in> set (backtrack (opts # rest) chosen curS curE)"
    by (auto simp: Let_def intro!: bexI[of _ c])
  with combo(2,3,4) cs show ?case by auto
qed

lemma fold_matches_mono:
  assumes "\<And>nxt acc. nxt \<in> set combos \<Longrightarrow>
             set (globalfinalMatches acc) \<subseteq> set (globalfinalMatches (f nxt acc))"
  shows "set (globalfinalMatches g) \<subseteq> set (globalfinalMatches (fold f combos g))"
  using assms
proof (induction combos arbitrary: g)
  case Nil
  then show ?case by simp
next
  case (Cons c cs)
  from Cons.prems[of c g] have "set (globalfinalMatches g) \<subseteq> set (globalfinalMatches (f c g))"
    by simp
  moreover from Cons.IH[of "f c g"] Cons.prems
  have "set (globalfinalMatches (f c g)) \<subseteq> set (globalfinalMatches (fold f cs (f c g)))" by simp
  ultimately show ?case by simp
qed

lemma fold_matches_reach:
  assumes mono: "\<And>nxt acc. nxt \<in> set combos \<Longrightarrow>
             set (globalfinalMatches acc) \<subseteq> set (globalfinalMatches (f nxt acc))"
    and "c \<in> set combos" and "\<And>acc. key \<in> set (globalfinalMatches (f c acc))"
  shows "key \<in> set (globalfinalMatches (fold f combos g))"
  using assms
proof (induction combos arbitrary: g)
  case Nil
  then show ?case by simp
next
  case (Cons x xs)
  show ?case
  proof (cases "c = x")
    case True
    with Cons.prems(3)[of g] have "key \<in> set (globalfinalMatches (f x g))" by simp
    moreover have "set (globalfinalMatches (f x g)) \<subseteq> set (globalfinalMatches (fold f xs (f x g)))"
      by (rule fold_matches_mono) (simp add: Cons.prems(1))
    ultimately show ?thesis by auto
  next
    case False
    with Cons.prems(2) have "c \<in> set xs" by simp
    from Cons.IH[OF _ this Cons.prems(3), of "f x g"] Cons.prems(1) show ?thesis by simp
  qed
qed

lemma dfs_mono:
  "set (globalfinalMatches g) \<subseteq> set (globalfinalMatches (dfsMultiColumn db vals combo isInitialCall g))"
proof (induction db vals combo isInitialCall g rule: dfsMultiColumn.induct)
  case (1 db vals combo isInitialCall g)
  obtain ok g1 where cr:
    "(if isInitialCall then check_roots (zip (nodes combo) vals) g else (True, g)) = (ok, g1)"
    by (cases "if isInitialCall then check_roots (zip (nodes combo) vals) g else (True, g)") auto
  have g1: "globalfinalMatches g1 = globalfinalMatches g"
    using cr check_roots_keeps[of "zip (nodes combo) vals" g] by (auto split: if_splits)
  show ?case
  proof (cases "\<not> ok \<or> rangeStart combo > rangeEnd combo")
    case True
    with cr g1 show ?thesis by (subst dfsMultiColumn.simps) auto
  next
    case False
    then have ok: "\<not> \<not> ok" and rngn: "\<not> rangeEnd combo < rangeStart combo" by auto
    show ?thesis
    proof (cases "list_all (\<lambda>nd. filename nd \<noteq> ''Memory'') (nodes combo)")
      case True
      obtain keys g2 where fs: "finalSstScanAndIntersect db combo vals g1 = (keys, g2)"
        by (cases "finalSstScanAndIntersect db combo vals g1") auto
      from final_scan_counters[of db combo vals g1] fs g1
      have "globalfinalMatches g2 = globalfinalMatches g" by simp
      with cr ok rngn True fs show ?thesis by (subst dfsMultiColumn.simps) auto
    next
      case False
      obtain oc g2 where bc: "build_candidates (zip (nodes combo) vals) []
                    (rangeStart combo) (rangeEnd combo) g1 = (oc, g2)"
        by (cases "build_candidates (zip (nodes combo) vals) []
                    (rangeStart combo) (rangeEnd combo) g1") auto
      from build_candidates_keeps[of "zip (nodes combo) vals" "[]" "rangeStart combo"
          "rangeEnd combo" g1] bc g1
      have g2: "globalfinalMatches g2 = globalfinalMatches g" by simp
      show ?thesis
      proof (cases oc)
        case None
        with cr ok rngn False bc g2 show ?thesis by (subst dfsMultiColumn.simps) auto
      next
        case (Some cands)
        from cr have e1: "(ok, g1) = (if isInitialCall
              then check_roots (zip (nodes combo) vals) g else (True, g))" by simp
        have "set (globalfinalMatches g2) \<subseteq> set (globalfinalMatches
                (fold (\<lambda>nxt acc. dfsMultiColumn db vals nxt False acc)
                   (backtrack cands [] (rangeStart combo) (rangeEnd combo)) g2))"
          by (rule fold_matches_mono) (rule "1.IH"[OF e1 ok rngn False bc[symmetric] Some])
        with cr ok rngn False bc Some g2 show ?thesis by (subst dfsMultiColumn.simps) auto
      qed
    qed
  qed
qed

lemma hit_expand:
  assumes "hit db v key nd"
  shows "\<exists>c \<in> set (expand nd). hit db v key c"
proof (cases "filename nd = ''Memory''")
  case True
  with assms show ?thesis by (subst (asm) hit_eq) (auto simp: expand_def)
next
  case False
  with assms show ?thesis by (auto simp: expand_def)
qed

lemma hit_bounds: "hit db v key c \<Longrightarrow>
    startKey c \<le> key \<and> key \<le> endKey c \<and> BloomFilter_exists (bloom c) v"
  by (subst (asm) hit_eq) simp

lemma hit_candidates:
  "length vals = length nds \<Longrightarrow> \<forall>i < length nds. hit db (vals ! i) key (nds ! i) \<Longrightarrow>
     \<exists>cs. length cs = length nds \<and> (\<forall>i < length nds. hit db (vals ! i) key (cs ! i)) \<and>
          list_all2 (\<lambda>nv c. c \<in> set (expand (fst nv)) \<and> startKey c \<le> key \<and> key \<le> endKey c \<and>
                             BloomFilter_exists (bloom c) (snd nv)) (zip nds vals) cs"
proof (induction nds arbitrary: vals)
  case Nil
  then show ?case by simp
next
  case (Cons nd nds)
  from Cons.prems(1) obtain v vs where vals: "vals = v # vs" "length vs = length nds"
    by (cases vals) auto
  from Cons.prems(2) vals have h0: "hit db v key nd"
    and hs: "\<forall>i < length nds. hit db (vs ! i) key (nds ! i)" by auto
  from hit_expand[OF h0] obtain c where c: "c \<in> set (expand nd)" "hit db v key c" by auto
  from Cons.IH[OF vals(2) hs] obtain cs where cs: "length cs = length nds"
    "\<forall>i < length nds. hit db (vs ! i) key (cs ! i)"
    "list_all2 (\<lambda>nv c. c \<in> set (expand (fst nv)) \<and> startKey c \<le> key \<and> key \<le> endKey c \<and>
                             BloomFilter_exists (bloom c) (snd nv)) (zip nds vs) cs" by auto
  have "\<forall>i < length (nd # nds). hit db (vals ! i) key ((c # cs) ! i)"
    using c(2) cs(2) vals by (auto simp: nth_Cons split: nat.splits)
  with c cs vals hit_bounds[OF c(2)] show ?case
    by (intro exI[of _ "c # cs"]) simp
qed

lemma dfs_complete:
  "sorted_store db \<Longrightarrow> length vals = length (nodes combo) \<Longrightarrow> nodes combo \<noteq> [] \<Longrightarrow>
   \<forall>i < length (nodes combo). hit db (vals ! i) key (nodes combo ! i) \<Longrightarrow>
   rangeStart combo \<le> key \<Longrightarrow> key \<le> rangeEnd combo \<Longrightarrow>
     key \<in> set (globalfinalMatches (dfsMultiColumn db vals combo isInitialCall g))"
proof (induction db vals combo isInitialCall g rule: dfsMultiColumn.induct)
  case (1 db vals combo isInitialCall g)
  note db = "1.prems"(1) and len = "1.prems"(2) and ne = "1.prems"(3) and hits = "1.prems"(4)
    and lo = "1.prems"(5) and hi = "1.prems"(6)
  have pos: "list_all root_positive (zip (nodes combo) vals)"
  proof -
    { fix nv assume "nv \<in> set (zip (nodes combo) vals)"
      then obtain i where i: "i < length (nodes combo)" "nv = (nodes combo ! i, vals ! i)"
        using len by (auto simp: set_zip)
      with hits hit_bounds[of db "vals ! i" key "nodes combo ! i"]
      have "root_positive nv" by (simp add: root_positive_def) }
    then show ?thesis by (auto simp: list_all_iff)
  qed
  have "fst (if isInitialCall then check_roots (zip (nodes combo) vals) g else (True, g))"
    using pos by (simp add: check_roots_char)
  then obtain g1 where cr:
    "(if isInitialCall then check_roots (zip (nodes combo) vals) g else (True, g)) = (True, g1)"
    by (cases "if isInitialCall then check_roots (zip (nodes combo) vals) g else (True, g)") auto
  from lo hi have "rangeStart combo \<le> rangeEnd combo" by (rule order_trans)
  then have rngn: "\<not> rangeEnd combo < rangeStart combo" by (simp add: not_less)
  show ?case
  proof (cases "list_all (\<lambda>nd. filename nd \<noteq> ''Memory'') (nodes combo)")
    case True
    obtain keys g2 where fs: "finalSstScanAndIntersect db combo vals g1 = (keys, g2)"
      by (cases "finalSstScanAndIntersect db combo vals g1") auto
    from ne len have nz: "zip (nodes combo) vals \<noteq> []" by (cases "nodes combo"; cases vals) auto
    have "key \<in> set (scanFileForKeysWithValue db (filename (fst p)) (snd p)
                     (max (rangeStart combo) (startKey (fst p)))
                     (min (rangeEnd combo) (endKey (fst p))))"
      if p: "p \<in> set (zip (nodes combo) vals)" for p
    proof -
      from p len obtain i where i: "i < length (nodes combo)" "p = (nodes combo ! i, vals ! i)"
        by (auto simp: set_zip)
      let ?nd = "nodes combo ! i"
      from i(1) True have leaf: "filename ?nd \<noteq> ''Memory''" by (auto simp: list_all_iff)
      from hits i(1) have h: "hit db (vals ! i) key ?nd" by simp
      from h leaf obtain records where r: "db (filename ?nd) = Some records"
        "(key, vals ! i) \<in> set records"
        by (subst (asm) hit_eq) (auto split: option.splits)
      from hit_bounds[OF h] have b: "startKey ?nd \<le> key" "key \<le> endKey ?nd" by auto
      from db r(1) have srt: "sorted (map fst records)" by (auto simp: sorted_store_def)
      from lo hi b have "max (rangeStart combo) (startKey ?nd) \<le> key"
        "key \<le> min (rangeEnd combo) (endKey ?nd)" by auto
      with r(2) show ?thesis
        unfolding i(2) fst_conv snd_conv scan_set[of db "filename ?nd" records, OF r(1) srt]
        by simp
    qed
    with final_scan_keys[of db combo vals g1] fs nz have "key \<in> set keys" by auto
    with cr rngn True fs show ?thesis by (subst dfsMultiColumn.simps) auto
  next
    case False
    from hit_candidates[OF len hits] obtain cs where cs: "length cs = length (nodes combo)"
      "\<forall>i < length (nodes combo). hit db (vals ! i) key (cs ! i)"
      "list_all2 (\<lambda>nv c. c \<in> set (expand (fst nv)) \<and> startKey c \<le> key \<and> key \<le> endKey c \<and>
                             BloomFilter_exists (bloom c) (snd nv)) (zip (nodes combo) vals) cs"
      by auto
    from build_candidates_complete[OF cs(3) lo hi, of "[]" g1]
    obtain cands g2 where bc: "build_candidates (zip (nodes combo) vals) []
        (rangeStart combo) (rangeEnd combo) g1 = (Some cands, g2)"
      and l2: "list_all2 (\<lambda>c opts. c \<in> set opts) cs cands" by auto
    have csb: "\<forall>c \<in> set cs. startKey c \<le> key \<and> key \<le> endKey c"
    proof
      fix c assume "c \<in> set cs"
      then obtain i where "i < length cs" "c = cs ! i" by (auto simp: in_set_conv_nth)
      with cs(1,2) have "hit db (vals ! i) key c" by simp
      from hit_bounds[OF this] show "startKey c \<le> key \<and> key \<le> endKey c" by simp
    qed
    from backtrack_complete[OF l2 csb lo hi, of "[]"]
    obtain nxt where nxt: "nxt \<in> set (backtrack cands [] (rangeStart combo) (rangeEnd combo))"
      "nodes nxt = cs" "rangeStart nxt \<le> key" "key \<le> rangeEnd nxt" by auto
    from cr have e1: "(True, g1) = (if isInitialCall
              then check_roots (zip (nodes combo) vals) g else (True, g))" by simp
    have nt: "\<not> \<not> True" by simp
    have l: "length vals = length (nodes nxt)" using nxt(2) cs(1) len by simp
    have n: "nodes nxt \<noteq> []" using nxt(2) cs(1) ne by auto
    have h: "\<forall>i < length (nodes nxt). hit db (vals ! i) key (nodes nxt ! i)"
      using nxt(2) cs(1,2) by simp
    have reach: "key \<in> set (globalfinalMatches (dfsMultiColumn db vals nxt False acc))" for acc
      by (rule "1.IH"[OF e1 nt rngn False bc[symmetric] refl nxt(1) db l n h nxt(3,4)])
    have "key \<in> set (globalfinalMatches
                (fold (\<lambda>nxt acc. dfsMultiColumn db vals nxt False acc)
                   (backtrack cands [] (rangeStart combo) (rangeEnd combo)) g2))"
      by (rule fold_matches_reach[where f = "\<lambda>nxt acc. dfsMultiColumn db vals nxt False acc"
            and c = nxt, OF dfs_mono nxt(1) reach])
    with cr rngn False bc show ?thesis by (subst dfsMultiColumn.simps) auto
  qed
qed

text \<open>
  The leaves of a column come from the runs of its files; a record of a file is within reach
  of the leaf of its run, and of every node above that leaf in a tree the builder returns.
  The nodes of such a tree that carry a file name are leaves of the column.
\<close>

lemma column_leaf_origin:
  assumes "l \<in> set (column_leaves db col)"
  shows "\<exists>f records run. f \<in> set (colFiles col) \<and> db f = Some records \<and>
           run \<in> set (runs_of (max 1 (colPartitionSize col)) records) \<and>
           l = leaf_of_run f (colBloomSize col) (colHashes col) run"
proof -
  from assms obtain f where f: "f \<in> set (colFiles col)"
    "l \<in> set (processSSTFile db f (colPartitionSize col) (colBloomSize col) (colHashes col))"
    by (auto simp: column_leaves_def)
  show ?thesis
  proof (cases "db f")
    case None
    with f(2) show ?thesis by (simp add: processSSTFile_def)
  next
    case (Some records)
    from f(2) processSSTFile_runs[of db f records, OF Some]
    obtain run where "run \<in> set (runs_of (max 1 (colPartitionSize col)) records)"
      "l = leaf_of_run f (colBloomSize col) (colHashes col) run" by auto
    with f(1) Some show ?thesis by blast
  qed
qed

lemma column_leaf_of_record:
  assumes "f \<in> set (colFiles col)" and "db f = Some records" and "x \<in> set records"
  shows "\<exists>run. run \<in> set (runs_of (max 1 (colPartitionSize col)) records) \<and> x \<in> set run \<and>
           leaf_of_run f (colBloomSize col) (colHashes col) run \<in> set (column_leaves db col)"
proof -
  have "concat (runs_of (max 1 (colPartitionSize col)) records) = records"
    by (rule concat_runs_of) simp
  with assms(3) obtain run where run: "run \<in> set (runs_of (max 1 (colPartitionSize col)) records)"
    "x \<in> set run" by (metis UN_E set_concat)
  have pr: "processSSTFile db f (colPartitionSize col) (colBloomSize col) (colHashes col) =
      map (leaf_of_run f (colBloomSize col) (colHashes col))
        (runs_of (max 1 (colPartitionSize col)) records)"
    by (rule processSSTFile_runs[of db f records, OF assms(2)])
  from run(1) have "leaf_of_run f (colBloomSize col) (colHashes col) run \<in>
      set (processSSTFile db f (colPartitionSize col) (colBloomSize col) (colHashes col))"
    unfolding pr by simp
  with assms(1)
  have "leaf_of_run f (colBloomSize col) (colHashes col) run \<in> set (column_leaves db col)"
    unfolding column_leaves_def by auto
  with run show ?thesis by blast
qed

lemma sorted_part:
  "sorted (map fst (concat xss)) \<Longrightarrow> xs \<in> set xss \<Longrightarrow> sorted (map fst xs)"
  by (induction xss) (auto simp: sorted_append)

lemma sorted_hd_last:
  "sorted (map fst xs) \<Longrightarrow> x \<in> set xs \<Longrightarrow> fst (hd xs) \<le> fst x \<and> fst x \<le> fst (last xs)"
proof (induction xs)
  case Nil
  then show ?case by simp
next
  case (Cons y ys)
  show ?case
  proof (cases "ys = []")
    case True
    with Cons.prems show ?thesis by simp
  next
    case False
    then have "last ys \<in> set ys" by simp
    with Cons False show ?thesis by auto
  qed
qed

lemma leaf_shape:
  "0 < bsz \<Longrightarrow> children (leaf_of_run f bsz k run) = [] \<and>
     filter_shape bsz k (bloom (leaf_of_run f bsz k run))"
proof -
  assume m: "0 < bsz"
  then have "wf_filter (foldl BloomFilter_insert (new_BloomFilter bsz k) (map snd run))" by simp
  then show ?thesis
    by (simp add: leaf_of_run_def filter_shape_def wf_filter_def new_BloomFilter_def)
qed

lemma hit_leaf:
  assumes "db f = Some records" and "sorted (map fst records)" and "0 < bsz"
    and "f \<noteq> ''Memory''" and "0 < N" and "run \<in> set (runs_of N records)"
    and "(key, v) \<in> set run"
  shows "hit db v key (leaf_of_run f bsz k run)"
proof -
  from concat_runs_of[OF assms(5), of records] assms(2,6)
  have "sorted (map fst run)" by (auto intro: sorted_part[of "runs_of N records"])
  from sorted_hd_last[OF this assms(7)]
  have b: "fst (hd run) \<le> key" "key \<le> fst (last run)" by auto
  from runs_of_subset[OF assms(5,6)] assms(7) have r: "(key, v) \<in> set records" by auto
  from assms(7) have "v \<in> set (map snd run)" by force
  with assms(3) have "BloomFilter_exists
      (foldl BloomFilter_insert (new_BloomFilter bsz k) (map snd run)) v"
    by (intro exists_foldl_insert) auto
  with b r assms(1,4) show ?thesis by (simp add: leaf_of_run_def)
qed

lemma buildLevel_covers:
  assumes r: "2 \<le> r"
  shows "nds \<noteq> [] \<Longrightarrow> length nds + nat r < 2 ^ 64 \<Longrightarrow> level_ok bsz nds \<Longrightarrow>
         buildLevel r bsz k nds = Some (Inr t) \<Longrightarrow>
           set (leaves_under t) = (\<Union>c \<in> set nds. set (leaves_under c))"
proof (induction "length nds" arbitrary: nds rule: less_induct)
  case less
  show ?case
  proof (cases "length nds = 1")
    case True
    then obtain n where n: "nds = [n]" by (cases nds) auto
    with less.prems(4) have "t = n" by (subst (asm) buildLevel.simps) simp
    with n show ?thesis by simp
  next
    case False
    with less.prems(1) have two: "2 \<le> length nds" by (cases nds) (auto simp: Suc_le_eq)
    let ?ps = "map (parent_node bsz k) (runs_of (nat r) nds)"
    from r have r1: "1 \<le> r" and N: "0 < nat r" "2 \<le> nat r" by auto
    from group_level_runs[OF r1 less.prems(2,3), of 0 k "[]"]
    have gl: "group_level r bsz k nds 0 [] = Some (Inr ?ps)" by simp
    from less.prems(4) False gl have bl: "buildLevel r bsz k ?ps = Some (Inr t)"
      by (subst (asm) buildLevel.simps) simp
    from runs_of_shrinks[OF N(2) two] have shorter: "length ?ps < length nds" by simp
    from runs_of_nonempty[OF N(1) less.prems(1)] have ne: "?ps \<noteq> []" by simp
    have ok: "level_ok bsz ?ps" by (rule level_ok_parents[OF N(1) less.prems(3)])
    from shorter less.prems(2) have nw: "length ?ps + nat r < 2 ^ 64" by simp
    from less.hyps[OF shorter ne nw ok bl]
    have "set (leaves_under t) = (\<Union>p \<in> set ?ps. set (leaves_under p))" .
    also have "\<dots> = (\<Union>run \<in> set (runs_of (nat r) nds). \<Union>c \<in> set run. set (leaves_under c))"
    proof -
      { fix run assume run: "run \<in> set (runs_of (nat r) nds)"
        from runs_of_lengths[OF N(1) run] have rne: "run \<noteq> []" by simp
        from runs_of_subset[OF N(1) run] less.prems(3) have "level_ok bsz run"
          by (auto simp: level_ok_def)
        from parent_node_summarises(2)[OF rne this, of k] rne
        have "leaves_under (parent_node bsz k run) = concat (map leaves_under run)"
          by (simp add: leaves_under_eq)
        then have "set (leaves_under (parent_node bsz k run)) = (\<Union>c \<in> set run. set (leaves_under c))"
          by simp }
      then show ?thesis by simp
    qed
    also have "\<dots> = (\<Union>c \<in> set (concat (runs_of (nat r) nds)). set (leaves_under c))" by auto
    also have "concat (runs_of (nat r) nds) = nds" by (rule concat_runs_of[OF N(1)])
    finally show ?thesis .
  qed
qed

lemma hit_up:
  assumes "built r bsz k L t"
    and L: "\<forall>l \<in> L. children l = [] \<and> filter_shape bsz k (bloom l)" and m: "0 < bsz"
  shows "l \<in> set (leaves_under t) \<Longrightarrow> hit db v key l \<Longrightarrow> hit db v key t"
  using assms(1)
proof (induction arbitrary: l rule: built.induct)
  case (built_leaf n)
  with L have "children n = []" by simp
  with built_leaf show ?case by (simp add: leaves_under_eq)
next
  case (built_parent run)
  let ?p = "parent_node bsz k run"
  note s = parent_node_summarises[OF built_parent(1,3), of k]
  from s built_parent(1) have "leaves_under ?p = concat (map leaves_under run)"
    by (simp add: leaves_under_eq)
  with built_parent.prems(1) obtain c where c: "c \<in> set run" "l \<in> set (leaves_under c)" by auto
  with built_parent(4) built_parent.prems(2) have hc: "hit db v key c" by blast
  from c(1) built_parent(4) have bc: "built r bsz k L c" by blast
  from built_invariants[OF bc L] self_in_subnodes[of c]
  have shc: "filter_shape bsz k (bloom c)" by (auto simp: node_inv_def)
  from s(1) have shp: "filter_shape bsz k (bloom ?p)"
    by (simp add: summarises_def filter_shape_def)
  from s c(1) have bits: "\<forall>i < bsz. bitArray (bloom c) ! i \<longrightarrow> bitArray (bloom ?p) ! i"
    by (auto simp: summarises_def)
  from hit_bounds[OF hc] have hb: "startKey c \<le> key" "key \<le> endKey c"
    "BloomFilter_exists (bloom c) v" by auto
  from exists_mono_bits[OF shc shp m bits hb(3)] have ex: "BloomFilter_exists (bloom ?p) v" .
  from s c(1) have "startKey ?p = Min (startKey ` set run)" "endKey ?p = Max (endKey ` set run)"
    by (auto simp: summarises_def)
  with c(1) have "startKey ?p \<le> startKey c" "endKey c \<le> endKey ?p"
    by auto
  with hb have rg: "startKey ?p \<le> key" "key \<le> endKey ?p" by (auto intro: order_trans)
  from s(1) have fn: "filename ?p = ''Memory''" by (simp add: summarises_def)
  from rg ex fn s(2) c(1) hc show ?case by (subst hit_eq) auto
qed

lemma built_tagged_leaves:
  assumes "built r bsz k L t" and L: "\<forall>l \<in> L. children l = []"
  shows "\<forall>n \<in> set (subnodes t). filename n \<noteq> ''Memory'' \<longrightarrow> n \<in> L"
  using assms(1)
proof (induction rule: built.induct)
  case (built_leaf n)
  with L have "children n = []" by simp
  then have "subnodes n = [n]" by (subst subnodes_eq) simp
  with built_leaf show ?case by simp
next
  case (built_parent run)
  let ?p = "parent_node bsz k run"
  note s = parent_node_summarises[OF built_parent(1,3), of k]
  have "subnodes ?p = ?p # concat (map subnodes run)" by (subst subnodes_eq) (simp add: s)
  with s(1) built_parent(4) show ?case by (auto simp: summarises_def)
qed

lemma built_starts_nonempty:
  assumes "built r bsz k L t" and L: "\<forall>l \<in> L. children l = [] \<and> filter_shape bsz k (bloom l)"
    and ne: "\<forall>l \<in> L. startKey l \<noteq> []"
  shows "starts_nonempty t"
  unfolding starts_nonempty_def
proof
  fix n assume "n \<in> set (subnodes t)"
  with built_invariants[OF assms(1) L] have ni: "node_inv bsz k L n" by blast
  then have lu: "leaves_under n \<noteq> []" "set (leaves_under n) \<subseteq> L"
    and st: "startKey n = Min (startKey ` set (leaves_under n))"
    by (auto simp: node_inv_def spans_leaves_def)
  from lu(1) have "Min (startKey ` set (leaves_under n)) \<in> startKey ` set (leaves_under n)"
    by (intro Min_in) auto
  with st obtain l where "l \<in> set (leaves_under n)" "startKey n = startKey l" by auto
  with lu(2) ne show "startKey n \<noteq> []" by (metis subsetD)
qed

lemma createPartitionedHierarchy_column:
  assumes "createPartitionedHierarchy db fs sstFiles partitionSize bsz k branchingRatio =
             Some (Inr (tree, fs'))"
    and "0 < bsz" and "2 \<le> branchingRatio" and "''Memory'' \<notin> set sstFiles"
    and "length (concat (map (\<lambda>sstFile. processSSTFile db sstFile partitionSize bsz k) sstFiles))
           + nat branchingRatio < 2 ^ 64"
  shows "built_column db \<lparr>colFiles = sstFiles, colPartitionSize = partitionSize,
                            colBloomSize = bsz, colHashes = k, colRatio = branchingRatio\<rparr> tree"
  using assms
  by (auto simp: createPartitionedHierarchy_def buildTree_def built_column_def column_leaves_def
      split: option.splits sum.splits)

lemma built_column_root:
  assumes "built_column db col tree"
  shows "\<exists>t. root tree = Some t \<and>
           built (colRatio col) (colBloomSize col) (colHashes col) (set (column_leaves db col)) t \<and>
           set (leaves_under t) = set (column_leaves db col) \<and>
           (\<forall>l \<in> set (column_leaves db col).
              children l = [] \<and> filter_shape (colBloomSize col) (colHashes col) (bloom l))"
proof -
  let ?r = "colRatio col" and ?m = "colBloomSize col" and ?k = "colHashes col"
  let ?L = "column_leaves db col"
  from assms obtain t where t: "root tree = Some t"
    and bl: "buildLevel ?r ?m ?k ?L = Some (Inr t)"
    and m: "0 < ?m" and r: "2 \<le> ?r" and nw: "length ?L + nat ?r < 2 ^ 64"
    by (auto simp: built_column_def split: option.splits)
  from bl have ne: "?L \<noteq> []" by (auto simp: buildLevel_empty)
  have sh: "\<forall>l \<in> set ?L. children l = [] \<and> filter_shape ?m ?k (bloom l)"
  proof
    fix l assume "l \<in> set ?L"
    from column_leaf_origin[OF this] leaf_shape[OF m]
    show "children l = [] \<and> filter_shape ?m ?k (bloom l)" by auto
  qed
  then have ok: "level_ok ?m ?L" by (auto simp: level_ok_def filter_shape_def)
  have "\<forall>c \<in> set ?L. built ?r ?m ?k (set ?L) c" by (auto intro: built_leaf)
  from buildLevel_total[OF r ne nw ok this] bl have b: "built ?r ?m ?k (set ?L) t" by auto
  from sh have "\<forall>c \<in> set ?L. leaves_under c = [c]" by (simp add: leaves_under_eq)
  with buildLevel_covers[OF r ne nw ok bl] have "set (leaves_under t) = set ?L" by simp
  with t b sh show ?thesis by blast
qed

lemma column_sound:
  assumes "built_column db col tree" and "root tree = Some t"
    and "dleaf_scan db gs ge v key t"
  shows "key \<in> set (column_scan db col v gs ge)"
proof -
  from built_column_root[OF assms(1)] assms(2)
  have b: "built (colRatio col) (colBloomSize col) (colHashes col) (set (column_leaves db col)) t"
    and sh: "\<forall>l \<in> set (column_leaves db col). children l = []" by auto
  from assms(3) obtain l where l: "l \<in> set (subnodes t)" "filename l \<noteq> ''Memory''"
    "key \<in> set (scanFileForKeysWithValue db (filename l) v gs ge)"
    by (auto simp: dleaf_scan_def)
  from built_tagged_leaves[OF b sh] l(1,2) have "l \<in> set (column_leaves db col)" by blast
  from column_leaf_origin[OF this] have "filename l \<in> set (colFiles col)"
    by (auto simp: leaf_of_run_def)
  with l(3) show ?thesis by (auto simp: column_scan_def)
qed

lemma column_complete:
  assumes "sorted_store db" and "built_column db col tree" and "root tree = Some t"
    and "key \<in> set (column_scan db col v gs ge)"
  shows "hit db v key t \<and> (gs = [] \<or> gs \<le> key) \<and> (ge = [] \<or> key \<le> ge)"
proof -
  from built_column_root[OF assms(2)] assms(3)
  have b: "built (colRatio col) (colBloomSize col) (colHashes col) (set (column_leaves db col)) t"
    and lu: "set (leaves_under t) = set (column_leaves db col)"
    and sh: "\<forall>l \<in> set (column_leaves db col).
              children l = [] \<and> filter_shape (colBloomSize col) (colHashes col) (bloom l)"
    by auto
  from assms(2) have m: "0 < colBloomSize col" and mem: "''Memory'' \<notin> set (colFiles col)"
    by (auto simp: built_column_def)
  from assms(4) obtain f where f: "f \<in> set (colFiles col)"
    "key \<in> set (scanFileForKeysWithValue db f v gs ge)" by (auto simp: column_scan_def)
  from f(2) obtain records where rec: "db f = Some records"
    by (cases "db f") (auto simp: scan_unopened)
  with assms(1) have srt: "sorted (map fst records)" by (auto simp: sorted_store_def)
  from f(2) have kv: "(key, v) \<in> set records" and bounds: "gs = [] \<or> gs \<le> key" "ge = [] \<or> key \<le> ge"
    unfolding scan_set[of db f records, OF rec srt] by auto
  from column_leaf_of_record[of f col db records "(key, v)", OF f(1) rec kv] obtain run where
    run: "run \<in> set (runs_of (max 1 (colPartitionSize col)) records)" "(key, v) \<in> set run"
    "leaf_of_run f (colBloomSize col) (colHashes col) run \<in> set (column_leaves db col)" by blast
  from f(1) mem have fm: "f \<noteq> ''Memory''" by auto
  have N: "0 < max 1 (colPartitionSize col)" by simp
  from hit_leaf[of db f records, OF rec srt m fm N run(1,2)]
  have hl: "hit db v key (leaf_of_run f (colBloomSize col) (colHashes col) run)" .
  from run(3) lu have "leaf_of_run f (colBloomSize col) (colHashes col) run \<in> set (leaves_under t)"
    by simp
  from hit_up[OF b sh m this hl] bounds show ?thesis by simp
qed

lemma column_starts:
  assumes "built_column db col tree" and "root tree = Some t" and "no_empty_key db col"
  shows "starts_nonempty t"
proof -
  from built_column_root[OF assms(1)] assms(2)
  have b: "built (colRatio col) (colBloomSize col) (colHashes col) (set (column_leaves db col)) t"
    and sh: "\<forall>l \<in> set (column_leaves db col).
              children l = [] \<and> filter_shape (colBloomSize col) (colHashes col) (bloom l)"
    by auto
  have "\<forall>l \<in> set (column_leaves db col). startKey l \<noteq> []"
  proof
    fix l assume "l \<in> set (column_leaves db col)"
    from column_leaf_origin[OF this] obtain f records run where
      o: "f \<in> set (colFiles col)" "db f = Some records"
      "run \<in> set (runs_of (max 1 (colPartitionSize col)) records)"
      "l = leaf_of_run f (colBloomSize col) (colHashes col) run" by blast
    have N: "0 < max 1 (colPartitionSize col)" by simp
    from runs_of_lengths[OF N o(3)] have "run \<noteq> []" by simp
    then have "hd run \<in> set run" by simp
    with runs_of_subset[OF N o(3)] have "hd run \<in> set records" by auto
    with assms(3) o(1,2) have "fst (hd run) \<noteq> []"
      by (auto simp: no_empty_key_def list_all_iff)
    with o(4) show "startKey l \<noteq> []" by (simp add: leaf_of_run_def)
  qed
  from built_starts_nonempty[OF b sh this] show ?thesis .
qed

text \<open>
  The tree the builder returns for a column is well formed: its nodes without children are
  the leaves of the column, which carry the name of their file, and every filter has the
  column's size.
\<close>

lemma built_column_well_formed:
  assumes "built_column db col tree" and "root tree = Some t"
  shows "well_formed_tree t"
proof -
  from built_column_root[OF assms(1)] assms(2)
  have b: "built (colRatio col) (colBloomSize col) (colHashes col) (set (column_leaves db col)) t"
    and sh: "\<forall>l \<in> set (column_leaves db col).
              children l = [] \<and> filter_shape (colBloomSize col) (colHashes col) (bloom l)"
    by auto
  from assms(1) have m: "0 < colBloomSize col" and mem: "''Memory'' \<notin> set (colFiles col)"
    by (auto simp: built_column_def)
  note inv = built_invariants[OF b sh]
  show ?thesis
    unfolding well_formed_tree_def well_tagged_def
  proof (intro conjI ballI)
    fix n assume n: "n \<in> set (subnodes t)"
    with inv have ni: "node_inv (colBloomSize col) (colHashes col) (set (column_leaves db col)) n"
      and par: "children n \<noteq> [] \<longrightarrow> summarises (colBloomSize col) (colHashes col) n"
      by auto
    show "children n = [] \<longleftrightarrow> filename n \<noteq> ''Memory''"
    proof
      assume "children n = []"
      then have "leaves_under n = [n]" by (simp add: leaves_under_eq)
      with ni have "n \<in> set (column_leaves db col)" by (auto simp: node_inv_def)
      from column_leaf_origin[OF this] mem show "filename n \<noteq> ''Memory''"
        by (auto simp: leaf_of_run_def)
    next
      assume "filename n \<noteq> ''Memory''"
      with par show "children n = []" by (auto simp: summarises_def)
    qed
  next
    fix n assume "n \<in> set (subnodes t)"
    with inv have "filter_shape (colBloomSize col) (colHashes col) (bloom n)"
      by (auto simp: node_inv_def)
    with m show "wf_filter (bloom n)" by (simp add: wf_filter_def filter_shape_def)
  qed
qed

lemma fold_max_start_le:
  "s0 \<le> key \<Longrightarrow> \<forall>r \<in> set rs. startKey r \<le> key \<Longrightarrow>
     fold (\<lambda>r s. max s (startKey r)) rs s0 \<le> (key :: string)"
  by (induction rs arbitrary: s0) auto

lemma fold_min_end_ge:
  "key \<le> e0 \<Longrightarrow> \<forall>r \<in> set rs. key \<le> endKey r \<Longrightarrow>
     (key :: string) \<le> fold (\<lambda>r e. min e (endKey r)) rs e0"
  by (induction rs arbitrary: e0) auto

lemma leaf_b2: "leaf_of_run f 8 2 [(key, ''b'')] =
    Node [] \<lparr>bitArray = [False, False, False, True, False, False, False, True],
             numHashFunctions = 2, bitArraySize = 8\<rparr> f key key"
  by (simp add: leaf_of_run_def BloomFilter_insert_def new_BloomFilter_def hash_b_8 upt_rec
      replicate_8 update_numeral_Cons)

lemma leaf_v2: "leaf_of_run f 8 2 [(key, ''v'')] =
    Node [] \<lparr>bitArray = [False, False, False, False, False, True, True, False],
             numHashFunctions = 2, bitArraySize = 8\<rparr> f key key"
  by (simp add: leaf_of_run_def BloomFilter_insert_def new_BloomFilter_def hash_v_8 upt_rec
      replicate_8 update_numeral_Cons)

subsection \<open>Claim C1: the intersection law\<close>

text \<open>
  Claim C1, as stated: for every non-empty list of per-column trees and an equal-length
  list of values, the multi-column query returns exactly the intersection of the
  per-column key sets: a key is in the result if and only if, for every column, scanning
  the column's files for the column's value within the global key range yields that key.

  This fails for a store with the empty key when only the upper global bound is given. The
  file \<open>''f''\<close> holds the empty key and the key \<open>''z''\<close>, both with the value \<open>''v''\<close>;
  with one record per leaf the builder returns a root over two leaves, the first with the
  empty string as start and end key, the second with the range \<open>[''z'', ''z'']\<close>. For the
  upper bound \<open>''m''\<close> the traversal keeps the first leaf only, and both ends of the joint
  range become the empty string. The scan of that leaf is called with the empty string as
  end key, which the scan reads as "no upper bound": it returns \<open>''z''\<close> too, a key above
  the global bound, while the scan of the file within the global bounds returns the empty
  key only. (The order of the two keys is that of the scan; the source leaves it open.)
\<close>

theorem empty_key_counterexample:
  "processSSTFile (no_ssts(''f'' := Some [([], ''v''), (''z'', ''v'')])) ''f'' 1 8 1 =
     [Node [] \<lparr>bitArray = [False, False, False, False, False, True, False, False],
          numHashFunctions = 1, bitArraySize = 8\<rparr> ''f'' [] [],
      Node [] \<lparr>bitArray = [False, False, False, False, False, True, False, False],
          numHashFunctions = 1, bitArraySize = 8\<rparr> ''f'' ''z'' ''z''] \<and>
   buildLevel 2 8 1
     [Node [] \<lparr>bitArray = [False, False, False, False, False, True, False, False],
          numHashFunctions = 1, bitArraySize = 8\<rparr> ''f'' [] [],
      Node [] \<lparr>bitArray = [False, False, False, False, False, True, False, False],
          numHashFunctions = 1, bitArraySize = 8\<rparr> ''f'' ''z'' ''z''] =
     Some (Inr (Node [Node [] \<lparr>bitArray = [False, False, False, False, False, True, False, False],
          numHashFunctions = 1, bitArraySize = 8\<rparr> ''f'' [] [],
          Node [] \<lparr>bitArray = [False, False, False, False, False, True, False, False],
          numHashFunctions = 1, bitArraySize = 8\<rparr> ''f'' ''z'' ''z'']
       \<lparr>bitArray = [False, False, False, False, False, True, False, False],
          numHashFunctions = 1, bitArraySize = 8\<rparr> ''Memory'' [] ''z'')) \<and>
   multiColumnQueryHierarchical (no_ssts(''f'' := Some [([], ''v''), (''z'', ''v'')]))
     [\<lparr>root = Some (Node [Node [] \<lparr>bitArray = [False, False, False, False, False, True, False, False],
          numHashFunctions = 1, bitArraySize = 8\<rparr> ''f'' [] [],
          Node [] \<lparr>bitArray = [False, False, False, False, False, True, False, False],
          numHashFunctions = 1, bitArraySize = 8\<rparr> ''f'' ''z'' ''z'']
       \<lparr>bitArray = [False, False, False, False, False, True, False, False],
          numHashFunctions = 1, bitArraySize = 8\<rparr> ''Memory'' [] ''z''),
       ratio = 2, bloomSize = 8, treeNumHashFunctions = 1,
       leafNodes = [Node [] \<lparr>bitArray = [False, False, False, False, False, True, False, False],
          numHashFunctions = 1, bitArraySize = 8\<rparr> ''f'' [] [],
          Node [] \<lparr>bitArray = [False, False, False, False, False, True, False, False],
          numHashFunctions = 1, bitArraySize = 8\<rparr> ''f'' ''z'' ''z'']\<rparr>]
     [''v''] [] ''m'' zero_globals
   = Inr ([[], ''z''],
          zero_globals\<lparr>gBloomCheckCount := 2, gLeafBloomCheckCount := 1, gSSTCheckCount := 1,
                         globalfinalMatches := [[], ''z'']\<rparr>) \<and>
   scanFileForKeysWithValue (no_ssts(''f'' := Some [([], ''v''), (''z'', ''v'')])) ''f'' ''v'' [] ''m'' = [[]]"
proof -
  have leaves: "processSSTFile (no_ssts(''f'' := Some [([], ''v''), (''z'', ''v'')])) ''f'' 1 8 1 =
     [Node [] \<lparr>bitArray = [False, False, False, False, False, True, False, False],
          numHashFunctions = 1, bitArraySize = 8\<rparr> ''f'' [] [],
      Node [] \<lparr>bitArray = [False, False, False, False, False, True, False, False],
          numHashFunctions = 1, bitArraySize = 8\<rparr> ''f'' ''z'' ''z'']"
    by (simp add: processSSTFile_runs[of _ _ "[([], ''v''), (''z'', ''v'')]"] runs_of.simps leaf_v1)
  have "buildLevel 2 8 1
     [Node [] \<lparr>bitArray = [False, False, False, False, False, True, False, False],
          numHashFunctions = 1, bitArraySize = 8\<rparr> ''f'' [] [],
      Node [] \<lparr>bitArray = [False, False, False, False, False, True, False, False],
          numHashFunctions = 1, bitArraySize = 8\<rparr> ''f'' ''z'' ''z''] =
     Some (Inr (parent_node 8 1
     [Node [] \<lparr>bitArray = [False, False, False, False, False, True, False, False],
          numHashFunctions = 1, bitArraySize = 8\<rparr> ''f'' [] [],
      Node [] \<lparr>bitArray = [False, False, False, False, False, True, False, False],
          numHashFunctions = 1, bitArraySize = 8\<rparr> ''f'' ''z'' ''z'']))"
    by (rule buildLevel_one_group) (simp_all add: level_ok_def)
  then have tree: "buildLevel 2 8 1
     [Node [] \<lparr>bitArray = [False, False, False, False, False, True, False, False],
          numHashFunctions = 1, bitArraySize = 8\<rparr> ''f'' [] [],
      Node [] \<lparr>bitArray = [False, False, False, False, False, True, False, False],
          numHashFunctions = 1, bitArraySize = 8\<rparr> ''f'' ''z'' ''z''] =
     Some (Inr (Node [Node [] \<lparr>bitArray = [False, False, False, False, False, True, False, False],
          numHashFunctions = 1, bitArraySize = 8\<rparr> ''f'' [] [],
          Node [] \<lparr>bitArray = [False, False, False, False, False, True, False, False],
          numHashFunctions = 1, bitArraySize = 8\<rparr> ''f'' ''z'' ''z'']
       \<lparr>bitArray = [False, False, False, False, False, True, False, False],
          numHashFunctions = 1, bitArraySize = 8\<rparr> ''Memory'' [] ''z''))"
    by (simp add: parent_node_def BloomFilter_merge_def new_BloomFilter_def replicate_8)
  have qry: "multiColumnQueryHierarchical (no_ssts(''f'' := Some [([], ''v''), (''z'', ''v'')]))
     [\<lparr>root = Some (Node [Node [] \<lparr>bitArray = [False, False, False, False, False, True, False, False],
          numHashFunctions = 1, bitArraySize = 8\<rparr> ''f'' [] [],
          Node [] \<lparr>bitArray = [False, False, False, False, False, True, False, False],
          numHashFunctions = 1, bitArraySize = 8\<rparr> ''f'' ''z'' ''z'']
       \<lparr>bitArray = [False, False, False, False, False, True, False, False],
          numHashFunctions = 1, bitArraySize = 8\<rparr> ''Memory'' [] ''z''),
       ratio = 2, bloomSize = 8, treeNumHashFunctions = 1,
       leafNodes = [Node [] \<lparr>bitArray = [False, False, False, False, False, True, False, False],
          numHashFunctions = 1, bitArraySize = 8\<rparr> ''f'' [] [],
          Node [] \<lparr>bitArray = [False, False, False, False, False, True, False, False],
          numHashFunctions = 1, bitArraySize = 8\<rparr> ''f'' ''z'' ''z'']\<rparr>]
     [''v''] [] ''m'' zero_globals
   = Inr ([[], ''z''],
          zero_globals\<lparr>gBloomCheckCount := 2, gLeafBloomCheckCount := 1, gSSTCheckCount := 1,
                         globalfinalMatches := [[], ''z'']\<rparr>)"
    by (simp add: multiColumnQueryHierarchical_def dfsMultiColumn.simps zero_globals_def
        exists_v1 finalSstScanAndIntersect_def build_candidates.simps consider_node_def
        count_probe_def expand_def backtrack.simps scanFileForKeysWithValue_def Let_def)
  have scan: "scanFileForKeysWithValue (no_ssts(''f'' := Some [([], ''v''), (''z'', ''v'')])) ''f'' ''v'' [] ''m'' = [[]]"
    by (simp add: scanFileForKeysWithValue_def)
  from leaves tree qry scan show ?thesis by (intro conjI)
qed

text \<open>
  Claim C1, amended: let every file of the store be sorted by key, and let every tree be
  the one the builder returns for its column (filter size above zero, ratio at least two,
  no file named \<open>''Memory''\<close>); let the lower global bound be given, or the upper one be
  absent, or no record have the empty key. Then for a non-empty list of trees and as many
  values the query returns, and a key is in the result if and only if, for every column,
  the scan of one of the column's files for the column's value within the global bounds
  yields it. This holds for every filter size above zero, every hash count and every ratio
  of at least two: no matching key is missed.
\<close>

theorem multi_column_intersection:
  assumes "sorted_store db"
    and "length cols = length trees" and "length vals = length trees" and "trees \<noteq> []"
    and "\<forall>i < length trees. built_column db (cols ! i) (trees ! i)"
    and "globalStart \<noteq> [] \<or> globalEnd = [] \<or> (\<forall>i < length trees. no_empty_key db (cols ! i))"
  shows "\<exists>keys g'. multiColumnQueryHierarchical db trees vals globalStart globalEnd g = Inr (keys, g') \<and>
           set keys = {key. \<forall>i < length trees.
                         key \<in> set (column_scan db (cols ! i) (vals ! i) globalStart globalEnd)}"
proof -
  let ?combo = "start_combo trees globalStart globalEnd"
  let ?roots = "map (\<lambda>t. the (root t)) trees"
  let ?G = "dfsMultiColumn db vals ?combo True (reset_globals g)"
  have rt: "root (trees ! i) = Some (?roots ! i)" if "i < length trees" for i
    using built_column_root[of db "cols ! i" "trees ! i"] assms(5) that by auto
  have "\<not> list_ex (\<lambda>t. root t = None) trees"
  proof
    assume "list_ex (\<lambda>t. root t = None) trees"
    then obtain i where "i < length trees" "root (trees ! i) = None"
      by (auto simp: list_ex_iff in_set_conv_nth)
    with rt[of i] show False by simp
  qed
  from query_unfold[OF assms(3)[symmetric] assms(4) this]
  have q: "multiColumnQueryHierarchical db trees vals globalStart globalEnd g =
             Inr (globalfinalMatches ?G, ?G)" .
  have nd: "nodes ?combo = ?roots" by (simp add: start_combo_def)
  from assms(3) have len: "length vals = length (nodes ?combo)" by (simp add: nd)
  from assms(4) have ne: "nodes ?combo \<noteq> []" by (simp add: nd)
  have sn: "globalEnd = [] \<or> globalStart \<noteq> [] \<or> (\<forall>nd \<in> set (nodes ?combo). starts_nonempty nd)"
  proof (cases "globalStart \<noteq> [] \<or> globalEnd = []")
    case True
    then show ?thesis by auto
  next
    case False
    with assms(6) have nk: "\<forall>i < length trees. no_empty_key db (cols ! i)" by simp
    { fix n assume "n \<in> set (nodes ?combo)"
      then obtain i where i: "i < length trees" "n = ?roots ! i"
        by (auto simp: nd in_set_conv_nth)
      from assms(5) nk i(1) have "built_column db (cols ! i) (trees ! i)"
        "no_empty_key db (cols ! i)" by simp_all
      from column_starts[OF this(1) rt[OF i(1)] this(2)] i(2) have "starts_nonempty n" by simp }
    then show ?thesis by blast
  qed
  have "set (globalfinalMatches ?G) =
          {key. \<forall>i < length trees.
                  key \<in> set (column_scan db (cols ! i) (vals ! i) globalStart globalEnd)}"
  proof (intro set_eqI iffI)
    fix key assume "key \<in> set (globalfinalMatches ?G)"
    from dfs_sound[OF assms(1) len ne start_combo_inv sn this]
    have ds: "\<forall>i < length trees. dleaf_scan db globalStart globalEnd (vals ! i) key (?roots ! i)"
      by (simp add: reset_globals_def nd)
    { fix i assume i: "i < length trees"
      with assms(5) have "built_column db (cols ! i) (trees ! i)" by simp
      from column_sound[OF this rt[OF i]] ds i
      have "key \<in> set (column_scan db (cols ! i) (vals ! i) globalStart globalEnd)" by simp }
    then show "key \<in> {key. \<forall>i < length trees.
                  key \<in> set (column_scan db (cols ! i) (vals ! i) globalStart globalEnd)}" by simp
  next
    fix key assume "key \<in> {key. \<forall>i < length trees.
                  key \<in> set (column_scan db (cols ! i) (vals ! i) globalStart globalEnd)}"
    then have ks: "\<forall>i < length trees.
        key \<in> set (column_scan db (cols ! i) (vals ! i) globalStart globalEnd)" by simp
    have cc: "hit db (vals ! i) key (?roots ! i) \<and> (globalStart = [] \<or> globalStart \<le> key) \<and>
              (globalEnd = [] \<or> key \<le> globalEnd)" if i: "i < length trees" for i
    proof -
      from assms(5) ks i have "built_column db (cols ! i) (trees ! i)"
        "key \<in> set (column_scan db (cols ! i) (vals ! i) globalStart globalEnd)" by simp_all
      from column_complete[OF assms(1) this(1) rt[OF i] this(2)] show ?thesis .
    qed
    then have hits: "\<forall>i < length (nodes ?combo). hit db (vals ! i) key (nodes ?combo ! i)"
      by (simp add: nd)
    from assms(4) have z: "0 < length trees" by simp
    from cc[OF z] have gb: "globalStart = [] \<or> globalStart \<le> key" "globalEnd = [] \<or> key \<le> globalEnd"
      by auto
    have rb: "\<forall>r \<in> set ?roots. startKey r \<le> key \<and> key \<le> endKey r"
    proof
      fix r assume "r \<in> set ?roots"
      then obtain i where i: "i < length trees" "r = ?roots ! i" by (auto simp: in_set_conv_nth)
      from cc[OF i(1)] hit_bounds[of db "vals ! i" key r] i(2)
      show "startKey r \<le> key \<and> key \<le> endKey r" by simp
    qed
    from assms(4) have "?roots \<noteq> []" by simp
    then have hdr: "hd ?roots \<in> set ?roots" by (rule hd_in_set)
    have lo: "rangeStart ?combo \<le> key"
      unfolding start_combo_def using gb(1) rb hdr
      by (auto intro!: fold_max_start_le)
    have hi: "key \<le> rangeEnd ?combo"
      unfolding start_combo_def using gb(2) rb hdr
      by (auto intro!: fold_min_end_ge)
    from dfs_complete[OF assms(1) len ne hits lo hi]
    show "key \<in> set (globalfinalMatches ?G)" .
  qed
  with q show ?thesis by blast
qed

theorem multi_column_intersection_witness:
  "sorted_store (no_ssts(''f'' := Some [(''k1'', ''b''), (''k2'', ''b'')],
            ''g'' := Some [(''k1'', ''v''), (''k2'', ''b'')])) \<and>
   length [\<lparr>colFiles = [''f''], colPartitionSize = 1, colBloomSize = 8, colHashes = 2, colRatio = 2\<rparr>,
      \<lparr>colFiles = [''g''], colPartitionSize = 1, colBloomSize = 8, colHashes = 2, colRatio = 2\<rparr>] =
   length [\<lparr>root = Some (parent_node 8 2 [leaf_of_run ''f'' 8 2 [(''k1'', ''b'')], leaf_of_run ''f'' 8 2 [(''k2'', ''b'')]]),
      ratio = 2, bloomSize = 8, treeNumHashFunctions = 2,
      leafNodes = [leaf_of_run ''f'' 8 2 [(''k1'', ''b'')], leaf_of_run ''f'' 8 2 [(''k2'', ''b'')]]\<rparr>,
     \<lparr>root = Some (parent_node 8 2 [leaf_of_run ''g'' 8 2 [(''k1'', ''v'')], leaf_of_run ''g'' 8 2 [(''k2'', ''b'')]]),
      ratio = 2, bloomSize = 8, treeNumHashFunctions = 2,
      leafNodes = [leaf_of_run ''g'' 8 2 [(''k1'', ''v'')], leaf_of_run ''g'' 8 2 [(''k2'', ''b'')]]\<rparr>] \<and>
   length [''b'', ''v''] =
   length [\<lparr>root = Some (parent_node 8 2 [leaf_of_run ''f'' 8 2 [(''k1'', ''b'')], leaf_of_run ''f'' 8 2 [(''k2'', ''b'')]]),
      ratio = 2, bloomSize = 8, treeNumHashFunctions = 2,
      leafNodes = [leaf_of_run ''f'' 8 2 [(''k1'', ''b'')], leaf_of_run ''f'' 8 2 [(''k2'', ''b'')]]\<rparr>,
     \<lparr>root = Some (parent_node 8 2 [leaf_of_run ''g'' 8 2 [(''k1'', ''v'')], leaf_of_run ''g'' 8 2 [(''k2'', ''b'')]]),
      ratio = 2, bloomSize = 8, treeNumHashFunctions = 2,
      leafNodes = [leaf_of_run ''g'' 8 2 [(''k1'', ''v'')], leaf_of_run ''g'' 8 2 [(''k2'', ''b'')]]\<rparr>] \<and>
   [\<lparr>root = Some (parent_node 8 2 [leaf_of_run ''f'' 8 2 [(''k1'', ''b'')], leaf_of_run ''f'' 8 2 [(''k2'', ''b'')]]),
      ratio = 2, bloomSize = 8, treeNumHashFunctions = 2,
      leafNodes = [leaf_of_run ''f'' 8 2 [(''k1'', ''b'')], leaf_of_run ''f'' 8 2 [(''k2'', ''b'')]]\<rparr>,
     \<lparr>root = Some (parent_node 8 2 [leaf_of_run ''g'' 8 2 [(''k1'', ''v'')], leaf_of_run ''g'' 8 2 [(''k2'', ''b'')]]),
      ratio = 2, bloomSize = 8, treeNumHashFunctions = 2,
      leafNodes = [leaf_of_run ''g'' 8 2 [(''k1'', ''v'')], leaf_of_run ''g'' 8 2 [(''k2'', ''b'')]]\<rparr>] \<noteq> [] \<and>
   built_column (no_ssts(''f'' := Some [(''k1'', ''b''), (''k2'', ''b'')],
            ''g'' := Some [(''k1'', ''v''), (''k2'', ''b'')]))
     \<lparr>colFiles = [''f''], colPartitionSize = 1, colBloomSize = 8, colHashes = 2, colRatio = 2\<rparr>
     \<lparr>root = Some (parent_node 8 2 [leaf_of_run ''f'' 8 2 [(''k1'', ''b'')], leaf_of_run ''f'' 8 2 [(''k2'', ''b'')]]),
      ratio = 2, bloomSize = 8, treeNumHashFunctions = 2,
      leafNodes = [leaf_of_run ''f'' 8 2 [(''k1'', ''b'')], leaf_of_run ''f'' 8 2 [(''k2'', ''b'')]]\<rparr> \<and>
   built_column (no_ssts(''f'' := Some [(''k1'', ''b''), (''k2'', ''b'')],
            ''g'' := Some [(''k1'', ''v''), (''k2'', ''b'')]))
     \<lparr>colFiles = [''g''], colPartitionSize = 1, colBloomSize = 8, colHashes = 2, colRatio = 2\<rparr>
     \<lparr>root = Some (parent_node 8 2 [leaf_of_run ''g'' 8 2 [(''k1'', ''v'')], leaf_of_run ''g'' 8 2 [(''k2'', ''b'')]]),
      ratio = 2, bloomSize = 8, treeNumHashFunctions = 2,
      leafNodes = [leaf_of_run ''g'' 8 2 [(''k1'', ''v'')], leaf_of_run ''g'' 8 2 [(''k2'', ''b'')]]\<rparr> \<and>
   no_empty_key (no_ssts(''f'' := Some [(''k1'', ''b''), (''k2'', ''b'')],
            ''g'' := Some [(''k1'', ''v''), (''k2'', ''b'')]))
     \<lparr>colFiles = [''f''], colPartitionSize = 1, colBloomSize = 8, colHashes = 2, colRatio = 2\<rparr> \<and>
   no_empty_key (no_ssts(''f'' := Some [(''k1'', ''b''), (''k2'', ''b'')],
            ''g'' := Some [(''k1'', ''v''), (''k2'', ''b'')]))
     \<lparr>colFiles = [''g''], colPartitionSize = 1, colBloomSize = 8, colHashes = 2, colRatio = 2\<rparr> \<and>
   multiColumnQueryHierarchical
     (no_ssts(''f'' := Some [(''k1'', ''b''), (''k2'', ''b'')],
            ''g'' := Some [(''k1'', ''v''), (''k2'', ''b'')]))
     [\<lparr>root = Some (parent_node 8 2 [leaf_of_run ''f'' 8 2 [(''k1'', ''b'')], leaf_of_run ''f'' 8 2 [(''k2'', ''b'')]]),
      ratio = 2, bloomSize = 8, treeNumHashFunctions = 2,
      leafNodes = [leaf_of_run ''f'' 8 2 [(''k1'', ''b'')], leaf_of_run ''f'' 8 2 [(''k2'', ''b'')]]\<rparr>,
     \<lparr>root = Some (parent_node 8 2 [leaf_of_run ''g'' 8 2 [(''k1'', ''v'')], leaf_of_run ''g'' 8 2 [(''k2'', ''b'')]]),
      ratio = 2, bloomSize = 8, treeNumHashFunctions = 2,
      leafNodes = [leaf_of_run ''g'' 8 2 [(''k1'', ''v'')], leaf_of_run ''g'' 8 2 [(''k2'', ''b'')]]\<rparr>]
     [''b'', ''v''] [] ''k9'' zero_globals
   = Inr ([''k1''],
          zero_globals\<lparr>gBloomCheckCount := 6, gLeafBloomCheckCount := 4, gSSTCheckCount := 2,
                         globalfinalMatches := [''k1'']\<rparr>) \<and>
   set (column_scan (no_ssts(''f'' := Some [(''k1'', ''b''), (''k2'', ''b'')],
            ''g'' := Some [(''k1'', ''v''), (''k2'', ''b'')]))
          \<lparr>colFiles = [''f''], colPartitionSize = 1, colBloomSize = 8, colHashes = 2, colRatio = 2\<rparr> ''b'' [] ''k9'') \<inter>
   set (column_scan (no_ssts(''f'' := Some [(''k1'', ''b''), (''k2'', ''b'')],
            ''g'' := Some [(''k1'', ''v''), (''k2'', ''b'')]))
          \<lparr>colFiles = [''g''], colPartitionSize = 1, colBloomSize = 8, colHashes = 2, colRatio = 2\<rparr> ''v'' [] ''k9'') = {''k1''}"
proof -
  have h1: "sorted_store (no_ssts(''f'' := Some [(''k1'', ''b''), (''k2'', ''b'')],
            ''g'' := Some [(''k1'', ''v''), (''k2'', ''b'')]))"
    by (simp add: sorted_store_def no_ssts_def)
  have h2: "length [\<lparr>colFiles = [''f''], colPartitionSize = 1, colBloomSize = 8, colHashes = 2, colRatio = 2\<rparr>,
      \<lparr>colFiles = [''g''], colPartitionSize = 1, colBloomSize = 8, colHashes = 2, colRatio = 2\<rparr>] =
   length [\<lparr>root = Some (parent_node 8 2 [leaf_of_run ''f'' 8 2 [(''k1'', ''b'')], leaf_of_run ''f'' 8 2 [(''k2'', ''b'')]]),
      ratio = 2, bloomSize = 8, treeNumHashFunctions = 2,
      leafNodes = [leaf_of_run ''f'' 8 2 [(''k1'', ''b'')], leaf_of_run ''f'' 8 2 [(''k2'', ''b'')]]\<rparr>,
     \<lparr>root = Some (parent_node 8 2 [leaf_of_run ''g'' 8 2 [(''k1'', ''v'')], leaf_of_run ''g'' 8 2 [(''k2'', ''b'')]]),
      ratio = 2, bloomSize = 8, treeNumHashFunctions = 2,
      leafNodes = [leaf_of_run ''g'' 8 2 [(''k1'', ''v'')], leaf_of_run ''g'' 8 2 [(''k2'', ''b'')]]\<rparr>]"
    by simp
  have h3: "length [''b'', ''v''] =
   length [\<lparr>root = Some (parent_node 8 2 [leaf_of_run ''f'' 8 2 [(''k1'', ''b'')], leaf_of_run ''f'' 8 2 [(''k2'', ''b'')]]),
      ratio = 2, bloomSize = 8, treeNumHashFunctions = 2,
      leafNodes = [leaf_of_run ''f'' 8 2 [(''k1'', ''b'')], leaf_of_run ''f'' 8 2 [(''k2'', ''b'')]]\<rparr>,
     \<lparr>root = Some (parent_node 8 2 [leaf_of_run ''g'' 8 2 [(''k1'', ''v'')], leaf_of_run ''g'' 8 2 [(''k2'', ''b'')]]),
      ratio = 2, bloomSize = 8, treeNumHashFunctions = 2,
      leafNodes = [leaf_of_run ''g'' 8 2 [(''k1'', ''v'')], leaf_of_run ''g'' 8 2 [(''k2'', ''b'')]]\<rparr>]"
    by simp
  have h4: "[\<lparr>root = Some (parent_node 8 2 [leaf_of_run ''f'' 8 2 [(''k1'', ''b'')], leaf_of_run ''f'' 8 2 [(''k2'', ''b'')]]),
      ratio = 2, bloomSize = 8, treeNumHashFunctions = 2,
      leafNodes = [leaf_of_run ''f'' 8 2 [(''k1'', ''b'')], leaf_of_run ''f'' 8 2 [(''k2'', ''b'')]]\<rparr>,
     \<lparr>root = Some (parent_node 8 2 [leaf_of_run ''g'' 8 2 [(''k1'', ''v'')], leaf_of_run ''g'' 8 2 [(''k2'', ''b'')]]),
      ratio = 2, bloomSize = 8, treeNumHashFunctions = 2,
      leafNodes = [leaf_of_run ''g'' 8 2 [(''k1'', ''v'')], leaf_of_run ''g'' 8 2 [(''k2'', ''b'')]]\<rparr>] \<noteq> []"
    by simp
  have h5: "built_column (no_ssts(''f'' := Some [(''k1'', ''b''), (''k2'', ''b'')],
            ''g'' := Some [(''k1'', ''v''), (''k2'', ''b'')]))
     \<lparr>colFiles = [''f''], colPartitionSize = 1, colBloomSize = 8, colHashes = 2, colRatio = 2\<rparr>
     \<lparr>root = Some (parent_node 8 2 [leaf_of_run ''f'' 8 2 [(''k1'', ''b'')], leaf_of_run ''f'' 8 2 [(''k2'', ''b'')]]),
      ratio = 2, bloomSize = 8, treeNumHashFunctions = 2,
      leafNodes = [leaf_of_run ''f'' 8 2 [(''k1'', ''b'')], leaf_of_run ''f'' 8 2 [(''k2'', ''b'')]]\<rparr>"
    proof -
    have lv: "column_leaves (no_ssts(''f'' := Some [(''k1'', ''b''), (''k2'', ''b'')],
            ''g'' := Some [(''k1'', ''v''), (''k2'', ''b'')]))
        \<lparr>colFiles = [''f''], colPartitionSize = 1, colBloomSize = 8, colHashes = 2, colRatio = 2\<rparr> =
        [leaf_of_run ''f'' 8 2 [(''k1'', ''b'')], leaf_of_run ''f'' 8 2 [(''k2'', ''b'')]]"
      by (simp add: column_leaves_def processSSTFile_runs[of _ _ "[(''k1'', ''b''), (''k2'', ''b'')]"]
          runs_of.simps)
    have "buildLevel 2 8 2 [leaf_of_run ''f'' 8 2 [(''k1'', ''b'')], leaf_of_run ''f'' 8 2 [(''k2'', ''b'')]] =
        Some (Inr (parent_node 8 2 [leaf_of_run ''f'' 8 2 [(''k1'', ''b'')], leaf_of_run ''f'' 8 2 [(''k2'', ''b'')]]))"
      by (rule buildLevel_one_group) (simp_all add: level_ok_def leaf_b2 leaf_v2)
    with lv show ?thesis by (simp add: built_column_def)
  qed
  have h6: "built_column (no_ssts(''f'' := Some [(''k1'', ''b''), (''k2'', ''b'')],
            ''g'' := Some [(''k1'', ''v''), (''k2'', ''b'')]))
     \<lparr>colFiles = [''g''], colPartitionSize = 1, colBloomSize = 8, colHashes = 2, colRatio = 2\<rparr>
     \<lparr>root = Some (parent_node 8 2 [leaf_of_run ''g'' 8 2 [(''k1'', ''v'')], leaf_of_run ''g'' 8 2 [(''k2'', ''b'')]]),
      ratio = 2, bloomSize = 8, treeNumHashFunctions = 2,
      leafNodes = [leaf_of_run ''g'' 8 2 [(''k1'', ''v'')], leaf_of_run ''g'' 8 2 [(''k2'', ''b'')]]\<rparr>"
    proof -
    have lv: "column_leaves (no_ssts(''f'' := Some [(''k1'', ''b''), (''k2'', ''b'')],
            ''g'' := Some [(''k1'', ''v''), (''k2'', ''b'')]))
        \<lparr>colFiles = [''g''], colPartitionSize = 1, colBloomSize = 8, colHashes = 2, colRatio = 2\<rparr> =
        [leaf_of_run ''g'' 8 2 [(''k1'', ''v'')], leaf_of_run ''g'' 8 2 [(''k2'', ''b'')]]"
      by (simp add: column_leaves_def processSSTFile_runs[of _ _ "[(''k1'', ''v''), (''k2'', ''b'')]"]
          runs_of.simps)
    have "buildLevel 2 8 2 [leaf_of_run ''g'' 8 2 [(''k1'', ''v'')], leaf_of_run ''g'' 8 2 [(''k2'', ''b'')]] =
        Some (Inr (parent_node 8 2 [leaf_of_run ''g'' 8 2 [(''k1'', ''v'')], leaf_of_run ''g'' 8 2 [(''k2'', ''b'')]]))"
      by (rule buildLevel_one_group) (simp_all add: level_ok_def leaf_b2 leaf_v2)
    with lv show ?thesis by (simp add: built_column_def)
  qed
  have h7: "no_empty_key (no_ssts(''f'' := Some [(''k1'', ''b''), (''k2'', ''b'')],
            ''g'' := Some [(''k1'', ''v''), (''k2'', ''b'')]))
     \<lparr>colFiles = [''f''], colPartitionSize = 1, colBloomSize = 8, colHashes = 2, colRatio = 2\<rparr>"
    by (simp add: no_empty_key_def no_ssts_def)
  have h8: "no_empty_key (no_ssts(''f'' := Some [(''k1'', ''b''), (''k2'', ''b'')],
            ''g'' := Some [(''k1'', ''v''), (''k2'', ''b'')]))
     \<lparr>colFiles = [''g''], colPartitionSize = 1, colBloomSize = 8, colHashes = 2, colRatio = 2\<rparr>"
    by (simp add: no_empty_key_def no_ssts_def)
  have h5': "\<forall>i < length [\<lparr>root = Some (parent_node 8 2 [leaf_of_run ''f'' 8 2 [(''k1'', ''b'')], leaf_of_run ''f'' 8 2 [(''k2'', ''b'')]]),
      ratio = 2, bloomSize = 8, treeNumHashFunctions = 2,
      leafNodes = [leaf_of_run ''f'' 8 2 [(''k1'', ''b'')], leaf_of_run ''f'' 8 2 [(''k2'', ''b'')]]\<rparr>,
     \<lparr>root = Some (parent_node 8 2 [leaf_of_run ''g'' 8 2 [(''k1'', ''v'')], leaf_of_run ''g'' 8 2 [(''k2'', ''b'')]]),
      ratio = 2, bloomSize = 8, treeNumHashFunctions = 2,
      leafNodes = [leaf_of_run ''g'' 8 2 [(''k1'', ''v'')], leaf_of_run ''g'' 8 2 [(''k2'', ''b'')]]\<rparr>].
      built_column (no_ssts(''f'' := Some [(''k1'', ''b''), (''k2'', ''b'')],
            ''g'' := Some [(''k1'', ''v''), (''k2'', ''b'')]))
        ([\<lparr>colFiles = [''f''], colPartitionSize = 1, colBloomSize = 8, colHashes = 2, colRatio = 2\<rparr>,
      \<lparr>colFiles = [''g''], colPartitionSize = 1, colBloomSize = 8, colHashes = 2, colRatio = 2\<rparr>] ! i)
        ([\<lparr>root = Some (parent_node 8 2 [leaf_of_run ''f'' 8 2 [(''k1'', ''b'')], leaf_of_run ''f'' 8 2 [(''k2'', ''b'')]]),
      ratio = 2, bloomSize = 8, treeNumHashFunctions = 2,
      leafNodes = [leaf_of_run ''f'' 8 2 [(''k1'', ''b'')], leaf_of_run ''f'' 8 2 [(''k2'', ''b'')]]\<rparr>,
     \<lparr>root = Some (parent_node 8 2 [leaf_of_run ''g'' 8 2 [(''k1'', ''v'')], leaf_of_run ''g'' 8 2 [(''k2'', ''b'')]]),
      ratio = 2, bloomSize = 8, treeNumHashFunctions = 2,
      leafNodes = [leaf_of_run ''g'' 8 2 [(''k1'', ''v'')], leaf_of_run ''g'' 8 2 [(''k2'', ''b'')]]\<rparr>] ! i)"
    using h5 h6 by (simp add: All_less_Suc2)
  have h6': "([] :: string) \<noteq> [] \<or> ''k9'' = [] \<or> (\<forall>i < length [\<lparr>root = Some (parent_node 8 2 [leaf_of_run ''f'' 8 2 [(''k1'', ''b'')], leaf_of_run ''f'' 8 2 [(''k2'', ''b'')]]),
      ratio = 2, bloomSize = 8, treeNumHashFunctions = 2,
      leafNodes = [leaf_of_run ''f'' 8 2 [(''k1'', ''b'')], leaf_of_run ''f'' 8 2 [(''k2'', ''b'')]]\<rparr>,
     \<lparr>root = Some (parent_node 8 2 [leaf_of_run ''g'' 8 2 [(''k1'', ''v'')], leaf_of_run ''g'' 8 2 [(''k2'', ''b'')]]),
      ratio = 2, bloomSize = 8, treeNumHashFunctions = 2,
      leafNodes = [leaf_of_run ''g'' 8 2 [(''k1'', ''v'')], leaf_of_run ''g'' 8 2 [(''k2'', ''b'')]]\<rparr>].
      no_empty_key (no_ssts(''f'' := Some [(''k1'', ''b''), (''k2'', ''b'')],
            ''g'' := Some [(''k1'', ''v''), (''k2'', ''b'')]))
        ([\<lparr>colFiles = [''f''], colPartitionSize = 1, colBloomSize = 8, colHashes = 2, colRatio = 2\<rparr>,
      \<lparr>colFiles = [''g''], colPartitionSize = 1, colBloomSize = 8, colHashes = 2, colRatio = 2\<rparr>] ! i))"
    using h7 h8 by (simp add: All_less_Suc2)
  have q: "multiColumnQueryHierarchical
     (no_ssts(''f'' := Some [(''k1'', ''b''), (''k2'', ''b'')],
            ''g'' := Some [(''k1'', ''v''), (''k2'', ''b'')]))
     [\<lparr>root = Some (parent_node 8 2 [leaf_of_run ''f'' 8 2 [(''k1'', ''b'')], leaf_of_run ''f'' 8 2 [(''k2'', ''b'')]]),
      ratio = 2, bloomSize = 8, treeNumHashFunctions = 2,
      leafNodes = [leaf_of_run ''f'' 8 2 [(''k1'', ''b'')], leaf_of_run ''f'' 8 2 [(''k2'', ''b'')]]\<rparr>,
     \<lparr>root = Some (parent_node 8 2 [leaf_of_run ''g'' 8 2 [(''k1'', ''v'')], leaf_of_run ''g'' 8 2 [(''k2'', ''b'')]]),
      ratio = 2, bloomSize = 8, treeNumHashFunctions = 2,
      leafNodes = [leaf_of_run ''g'' 8 2 [(''k1'', ''v'')], leaf_of_run ''g'' 8 2 [(''k2'', ''b'')]]\<rparr>]
     [''b'', ''v''] [] ''k9'' zero_globals
   = Inr ([''k1''],
          zero_globals\<lparr>gBloomCheckCount := 6, gLeafBloomCheckCount := 4, gSSTCheckCount := 2,
                         globalfinalMatches := [''k1'']\<rparr>)"
    by (simp add: multiColumnQueryHierarchical_def dfsMultiColumn.simps zero_globals_def
        leaf_b2 leaf_v2 parent_node_def BloomFilter_merge_def new_BloomFilter_def replicate_8
        BloomFilter_exists_def hash_b_8 hash_v_8 upt_rec
        finalSstScanAndIntersect_def build_candidates.simps consider_node_def
        count_probe_def expand_def backtrack.simps scanFileForKeysWithValue_def Let_def)
  from multi_column_intersection[OF h1 h2 h3 h4 h5' h6', where g = zero_globals] q
  have "{key. \<forall>i < length [\<lparr>root = Some (parent_node 8 2 [leaf_of_run ''f'' 8 2 [(''k1'', ''b'')], leaf_of_run ''f'' 8 2 [(''k2'', ''b'')]]),
      ratio = 2, bloomSize = 8, treeNumHashFunctions = 2,
      leafNodes = [leaf_of_run ''f'' 8 2 [(''k1'', ''b'')], leaf_of_run ''f'' 8 2 [(''k2'', ''b'')]]\<rparr>,
     \<lparr>root = Some (parent_node 8 2 [leaf_of_run ''g'' 8 2 [(''k1'', ''v'')], leaf_of_run ''g'' 8 2 [(''k2'', ''b'')]]),
      ratio = 2, bloomSize = 8, treeNumHashFunctions = 2,
      leafNodes = [leaf_of_run ''g'' 8 2 [(''k1'', ''v'')], leaf_of_run ''g'' 8 2 [(''k2'', ''b'')]]\<rparr>].
           key \<in> set (column_scan (no_ssts(''f'' := Some [(''k1'', ''b''), (''k2'', ''b'')],
            ''g'' := Some [(''k1'', ''v''), (''k2'', ''b'')]))
             ([\<lparr>colFiles = [''f''], colPartitionSize = 1, colBloomSize = 8, colHashes = 2, colRatio = 2\<rparr>,
      \<lparr>colFiles = [''g''], colPartitionSize = 1, colBloomSize = 8, colHashes = 2, colRatio = 2\<rparr>] ! i)
             ([''b'', ''v''] ! i) [] ''k9'')} = {''k1''}"
    by auto
  then have c: "set (column_scan (no_ssts(''f'' := Some [(''k1'', ''b''), (''k2'', ''b'')],
            ''g'' := Some [(''k1'', ''v''), (''k2'', ''b'')]))
          \<lparr>colFiles = [''f''], colPartitionSize = 1, colBloomSize = 8, colHashes = 2, colRatio = 2\<rparr> ''b'' [] ''k9'') \<inter>
   set (column_scan (no_ssts(''f'' := Some [(''k1'', ''b''), (''k2'', ''b'')],
            ''g'' := Some [(''k1'', ''v''), (''k2'', ''b'')]))
          \<lparr>colFiles = [''g''], colPartitionSize = 1, colBloomSize = 8, colHashes = 2, colRatio = 2\<rparr> ''v'' [] ''k9'') = {''k1''}"
    by (auto simp: All_less_Suc2)
  from h1 h2 h3 h4 h5 h6 h7 h8 q c show ?thesis by (intro conjI)
qed

end
